theory Spec2Isabelle
  imports Main "HOL-Library.Word" "HOL-Library.Sublist"
begin

unbundle bit_operations_syntax

section \<open>Python values, exceptions and the struct module\<close>

text \<open>
  Elements of \<open>bytes\<close>, \<open>bytearray\<close> and \<open>memoryview\<close> objects are 8-bit words; every
  other Python integer of the program is non-negative and unbounded, hence a \<open>nat\<close>,
  except the two counters that can go below zero (\<open>key_index\<close> in \<open>decrypt\<close> and
  \<open>self.length\<close> in \<open>LzssCoroutine\<close>), which are \<open>int\<close>.
  An exception is a value \<open>Inl e\<close>; \<open>IndexError\<close> carries the name of the indexed object.
\<close>

type_synonym byte = "8 word"

datatype error =
    StructError
  | IndexError string
  | ValueError
  | OSError
  | TypeError
  | ImportError

text \<open>Little-endian decoding and encoding of unsigned integers.\<close>

fun from_le :: "byte list \<Rightarrow> nat" where
  "from_le [] = 0"
| "from_le (b # bs) = unat b + 256 * from_le bs"

fun to_le :: "nat \<Rightarrow> nat \<Rightarrow> byte list" where
  "to_le 0 v = []"
| "to_le (Suc n) v = of_nat (v mod 256) # to_le n (v div 256)"

text \<open>
  The offset rule shared by \<open>struct.unpack_from\<close> and \<open>struct.pack_into\<close> for an item
  of \<open>w\<close> bytes in a buffer of \<open>n\<close> bytes: a negative offset counts from the end, and
  an item that does not fit raises \<open>struct.error\<close>.
\<close>

definition struct_offset :: "nat \<Rightarrow> nat \<Rightarrow> int \<Rightarrow> error + nat" where
  "struct_offset w n offset =
     (if offset < 0 \<and> offset + int w > 0 then Inl StructError
      else if offset < 0 \<and> offset + int n < 0 then Inl StructError
      else let off = (if offset < 0 then offset + int n else offset)
           in if int n - off < int w then Inl StructError else Inr (nat off))"

text \<open>\<open>struct.unpack_from(fmt, buf, offset)[0]\<close> for the formats \<open><I\<close> (4 bytes) and \<open><H\<close> (2 bytes).\<close>

definition unpack_from :: "nat \<Rightarrow> byte list \<Rightarrow> int \<Rightarrow> error + nat" where
  "unpack_from w buf offset =
     (case struct_offset w (length buf) offset of
        Inl e \<Rightarrow> Inl e
      | Inr off \<Rightarrow> Inr (from_le (take w (drop off buf))))"

text \<open>\<open>struct.pack_into("<I", buf, offset, v)\<close>: the buffer with four bytes replaced;
  a value outside the 32-bit range raises \<open>struct.error\<close>.\<close>

definition pack_into :: "byte list \<Rightarrow> int \<Rightarrow> nat \<Rightarrow> error + byte list" where
  "pack_into buf offset v =
     (case struct_offset 4 (length buf) offset of
        Inl e \<Rightarrow> Inl e
      | Inr off \<Rightarrow>
          if 2 ^ 32 \<le> v then Inl StructError
          else Inr (take off buf @ to_le 4 v @ drop (off + 4) buf))"

section \<open>The stage cipher: \<open>EmeArchive.decrypt\<close>\<close>

text \<open>\<open>range(0, n, 4)\<close>.\<close>

definition range4 :: "nat \<Rightarrow> nat list" where
  "range4 n = map (\<lambda>k. 4 * k) [0..<(n + 3) div 4]"

text \<open>Opcode 1: the loop \<open>for j in range(0, len(data), 4)\<close> that XORs each word with the key.\<close>

fun stage_xor :: "nat \<Rightarrow> nat list \<Rightarrow> byte list \<Rightarrow> error + byte list" where
  "stage_xor key [] data = Inr data"
| "stage_xor key (j # js) data =
     (case unpack_from 4 data (int j) of
        Inl e \<Rightarrow> Inl e
      | Inr v \<Rightarrow>
          (case pack_into data (int j) (v XOR key) of
             Inl e \<Rightarrow> Inl e
           | Inr data' \<Rightarrow> stage_xor key js data'))"

text \<open>Opcode 2: as opcode 1, and then \<open>key = v\<close>, the word as it was read.\<close>

fun stage_chain :: "nat \<Rightarrow> nat list \<Rightarrow> byte list \<Rightarrow> error + byte list" where
  "stage_chain key [] data = Inr data"
| "stage_chain key (j # js) data =
     (case unpack_from 4 data (int j) of
        Inl e \<Rightarrow> Inl e
      | Inr v \<Rightarrow>
          (case pack_into data (int j) (v XOR key) of
             Inl e \<Rightarrow> Inl e
           | Inr data' \<Rightarrow> stage_chain v js data'))"

text \<open>\<open>shift_value\<close>: the loop over \<open>range(32)\<close> with its two variables, then the function.\<close>

fun shift_value_loop :: "nat list \<Rightarrow> nat \<Rightarrow> nat \<Rightarrow> nat \<Rightarrow> nat \<Rightarrow> nat" where
  "shift_value_loop [] val key shift result = result"
| "shift_value_loop (i # is) val key shift result =
     shift_value_loop is val key (shift + key)
       (result OR push_bit ((shift + key) mod 32) (drop_bit i val AND 1))"

definition shift_value :: "nat \<Rightarrow> nat \<Rightarrow> nat" where
  "shift_value val key = shift_value_loop [0..<32] val key 0 0"

text \<open>Opcode 4: each word replaced by \<open>shift_value\<close> of it.\<close>

fun stage_shift :: "nat \<Rightarrow> nat list \<Rightarrow> byte list \<Rightarrow> error + byte list" where
  "stage_shift key [] data = Inr data"
| "stage_shift key (j # js) data =
     (case unpack_from 4 data (int j) of
        Inl e \<Rightarrow> Inl e
      | Inr v \<Rightarrow>
          (case pack_into data (int j) (shift_value v key) of
             Inl e \<Rightarrow> Inl e
           | Inr data' \<Rightarrow> stage_shift key js data'))"

text \<open>
  \<open>init_table\<close> (opcode 8): the loop over \<open>range(length)\<close> with the cursor \<open>x\<close> and the
  table, then the function; its result is what \<open>buffer[:] = table\<close> stores. The loop body
  runs only when \<open>length > 0\<close>, \<open>x\<close> is reduced modulo \<open>length\<close> and \<open>i\<close> is below it, so
  no index is out of range.
\<close>

fun init_table_loop :: "nat list \<Rightarrow> byte list \<Rightarrow> nat \<Rightarrow> nat \<Rightarrow> byte list \<Rightarrow> byte list" where
  "init_table_loop [] buffer key x table = table"
| "init_table_loop (i # is) buffer key x table =
     init_table_loop is buffer key ((x + key) mod length buffer)
       (table[(x + key) mod length buffer := buffer ! i])"

definition init_table :: "byte list \<Rightarrow> nat \<Rightarrow> byte list" where
  "init_table buffer key =
     init_table_loop [0..<length buffer] buffer key 0 (replicate (length buffer) 0)"

text \<open>The body of one round: the \<open>if\<close>/\<open>elif\<close> chain on the opcode \<open>routine[i]\<close>.\<close>

definition decrypt_stage :: "byte \<Rightarrow> nat \<Rightarrow> byte list \<Rightarrow> error + byte list" where
  "decrypt_stage opcode key data =
     (if opcode = 1 then stage_xor key (range4 (length data)) data
      else if opcode = 2 then stage_chain key (range4 (length data)) data
      else if opcode = 4 then stage_shift key (range4 (length data)) data
      else if opcode = 8 then Inr (init_table data key)
      else Inr data)"

text \<open>The loop \<open>for i in range(7, -1, -1)\<close>; \<open>key_index\<close> is its value before the round.\<close>

fun decrypt_rounds :: "nat list \<Rightarrow> byte list \<Rightarrow> int \<Rightarrow> byte list \<Rightarrow> error + byte list" where
  "decrypt_rounds [] routine key_index data = Inr data"
| "decrypt_rounds (i # is) routine key_index data =
     (case unpack_from 4 routine (key_index - 4) of
        Inl e \<Rightarrow> Inl e
      | Inr key \<Rightarrow>
          if length routine \<le> i then Inl (IndexError ''routine'')
          else (case decrypt_stage (routine ! i) key data of
                  Inl e \<Rightarrow> Inl e
                | Inr data' \<Rightarrow> decrypt_rounds is routine (key_index - 4) data'))"

text \<open>
  \<open>decrypt(buffer, offset, length, routine)\<close>: \<open>data\<close> is the slice
  \<open>buffer[offset:offset+length]\<close> (clamped to the buffer, as a slice is), and the result is
  the buffer with that slice rewritten, since the memoryview shares the buffer's bytes.
\<close>

definition decrypt :: "byte list \<Rightarrow> nat \<Rightarrow> nat \<Rightarrow> byte list \<Rightarrow> error + byte list" where
  "decrypt buffer offset len routine =
     (let data = take len (drop offset buffer)
      in case decrypt_rounds [7, 6, 5, 4, 3, 2, 1, 0] routine (int (length routine)) data of
           Inl e \<Rightarrow> Inl e
         | Inr data' \<Rightarrow> Inr (take offset buffer @ data' @ drop (offset + length data) buffer))"

section \<open>The sliding-window decoders of \<open>lzss.py\<close>\<close>

text \<open>
  An input stream is the list of its unread bytes: \<open>read(1)\<close> takes the head, and an empty
  result means the stream is exhausted. Record fields carry a prefix (\<open>co_\<close> for
  \<open>LzssCoroutine\<close>, \<open>rd_\<close> for \<open>LzssReader\<close>), since both classes use the same field names.
\<close>

record LzssSettings =
  frame_size :: nat
  frame_fill :: byte
  frame_init_pos :: nat

definition LzssSettings_init :: LzssSettings where
  "LzssSettings_init = \<lparr>frame_size = 0x1000, frame_fill = 0, frame_init_pos = 0xFEE\<rparr>"

subsection \<open>\<open>LzssCoroutine\<close>: decoding until the input is exhausted\<close>

record LzssCoroutine =
  co_settings :: LzssSettings
  co_buffer :: "byte list"
  co_pos :: nat
  co_length :: int

text \<open>The object after \<open>__init__\<close> and \<open>initialize\<close>, which installs the default settings.\<close>

definition initialize :: LzssCoroutine where
  "initialize = \<lparr>co_settings = LzssSettings_init, co_buffer = [], co_pos = 0, co_length = 0\<rparr>"

text \<open>
  The state of a run of the generator \<open>unpack\<close>: the object's fields, the local variables
  \<open>frame\<close> and \<open>frame_pos\<close>, and the values yielded so far. The generator is driven until it
  finishes. \<open>frame_mask\<close> is \<open>frame_size - 1\<close>; every index into the frame is masked with it,
  so it is below \<open>frame_size\<close>.
\<close>

record co_state = LzssCoroutine +
  co_frame :: "byte list"
  co_frame_pos :: nat
  co_yields :: "nat list"

definition co_frame_mask :: "co_state \<Rightarrow> nat" where
  "co_frame_mask s = frame_size (co_settings s) - 1"

text \<open>
  The statements both branches run for one output byte: store it in the frame at the
  masked cursor, advance the cursor, append it to \<open>self.buffer\<close>, count it, and yield
  \<open>self.pos\<close> when \<open>self.length\<close> reaches 0.
\<close>

definition co_emit :: "byte \<Rightarrow> co_state \<Rightarrow> co_state" where
  "co_emit b s =
     (let s1 = s\<lparr>co_frame := (co_frame s)[co_frame_pos s AND co_frame_mask s := b],
                 co_frame_pos := co_frame_pos s + 1,
                 co_buffer := co_buffer s @ [b],
                 co_pos := co_pos s + 1,
                 co_length := co_length s - 1\<rparr>
      in if co_length s1 = 0 then s1\<lparr>co_yields := co_yields s1 @ [co_pos s1]\<rparr> else s1)"

text \<open>The match loop \<open>for _ in range(3 + (hi & 0xF))\<close>, with the iterations left and \<open>offset\<close>.\<close>

fun co_copy :: "nat \<Rightarrow> nat \<Rightarrow> co_state \<Rightarrow> co_state" where
  "co_copy 0 offset s = s"
| "co_copy (Suc n) offset s =
     co_copy n (offset + 1) (co_emit (co_frame s ! (offset AND co_frame_mask s)) s)"

text \<open>
  The loop \<open>for bit in range(8)\<close> over the bits still to do. The result is the unread input,
  the state, and whether the generator returned inside the loop (a read found the input
  exhausted).
\<close>

fun co_bits :: "nat list \<Rightarrow> nat \<Rightarrow> byte list \<Rightarrow> co_state \<Rightarrow> bool \<times> byte list \<times> co_state" where
  "co_bits [] ctl inp s = (False, inp, s)"
| "co_bits (bitno # bits) ctl inp s =
     (if ctl AND push_bit bitno 1 \<noteq> 0 then
        (case inp of
           [] \<Rightarrow> (True, [], s)
         | b # rest \<Rightarrow> co_bits bits ctl rest (co_emit b s))
      else
        (case inp of
           [] \<Rightarrow> (True, [], s)
         | lo # rest \<Rightarrow>
             (case rest of
                [] \<Rightarrow> (True, [], s)
              | hi # rest' \<Rightarrow>
                  co_bits bits ctl rest'
                    (co_copy (3 + (unat hi AND 0xF)) (push_bit 4 (unat hi AND 0xf0) OR unat lo) s))))"

text \<open>The loop \<open>while True\<close>: it ends when the control byte cannot be read, or inside the bits.\<close>

function co_loop :: "byte list \<Rightarrow> co_state \<Rightarrow> byte list \<times> co_state" where
  "co_loop inp s =
     (case inp of
        [] \<Rightarrow> ([], s)
      | ctl # rest \<Rightarrow>
          (case co_bits [0..<8] (unat ctl) rest s of
             (True, inp', s') \<Rightarrow> (inp', s')
           | (False, inp', s') \<Rightarrow> co_loop inp' s'))"
  by pat_completeness auto
termination
proof -
  have shorter: "length (fst (snd (co_bits bits ctl inp s))) \<le> length inp" for bits ctl inp s
  proof (induction bits ctl inp s rule: co_bits.induct)
    case (1 ctl inp s)
    show ?case by simp
  next
    case (2 bitno bits ctl inp s)
    show ?case
    proof (cases "ctl AND push_bit bitno 1 \<noteq> 0")
      case True
      then show ?thesis using "2.IH"(1) [OF True] by (cases inp) (auto intro: le_SucI)
    next
      case False
      show ?thesis
      proof (cases inp)
        case Nil
        with False show ?thesis by simp
      next
        case (Cons lo rest)
        show ?thesis
        proof (cases rest)
          case Nil
          with False Cons show ?thesis by simp
        next
          case (Cons hi rest')
          with False \<open>inp = lo # rest\<close> "2.IH"(2) [OF False \<open>inp = lo # rest\<close> Cons]
          show ?thesis by (auto intro: le_SucI)
        qed
      qed
    qed
  qed
  show ?thesis
  proof (relation "measure (\<lambda>(inp, s). length inp)")
    show "wf (measure (\<lambda>(inp, s). length inp))" by simp
  next
    fix inp :: "byte list" and s :: co_state and ctl rest x y inp' s' z
    assume "inp = ctl # rest" and "(x, y) = co_bits [0..<8] (unat ctl) rest s"
      and "(inp', s') = y"
    then have "inp' = fst (snd (co_bits [0..<8] (unat ctl) rest s))"
      by (metis fst_conv snd_conv)
    then have "length inp' \<le> length rest"
      using shorter by simp
    with \<open>inp = ctl # rest\<close> show "((inp', s'), (inp, s)) \<in> measure (\<lambda>(inp, s). length inp)"
      by simp
  qed
qed

declare co_loop.simps [simp del]

text \<open>\<open>unpack\<close> on an initialized object reading the stream \<open>inp\<close>, driven to its end.\<close>

definition LzssCoroutine_unpack :: "byte list \<Rightarrow> LzssCoroutine \<Rightarrow> byte list \<times> co_state" where
  "LzssCoroutine_unpack inp c =
     co_loop inp
       \<lparr>co_settings = co_settings c, co_buffer = co_buffer c, co_pos = co_pos c,
        co_length = co_length c,
        co_frame = replicate (frame_size (co_settings c)) (frame_fill (co_settings c)),
        co_frame_pos = frame_init_pos (co_settings c),
        co_yields = []\<rparr>"

subsection \<open>\<open>LzssReader\<close>: decoding into a buffer of fixed size\<close>

record LzssReader =
  rd_output :: "byte list"
  rd_size :: nat
  rd_frame_size :: nat
  rd_frame_fill :: byte
  rd_frame_init_pos :: nat

text \<open>
  \<open>__init__\<close>: \<open>self.input\<close> is a \<open>BytesIO\<close> over the first \<open>input_length\<close> bytes of the stream
  (fewer, when the stream is shorter), and \<open>self.output\<close> is \<open>output_length\<close> zero bytes. The
  result is the unread content of \<open>self.input\<close> and the other fields.
\<close>

definition LzssReader_init :: "byte list \<Rightarrow> nat \<Rightarrow> nat \<Rightarrow> byte list \<times> LzssReader" where
  "LzssReader_init input_stream input_length output_length =
     (take input_length input_stream,
      \<lparr>rd_output = replicate output_length 0, rd_size = input_length,
       rd_frame_size = 0x1000, rd_frame_fill = 0, rd_frame_init_pos = 0xfee\<rparr>)"

text \<open>
  The state of a run of \<open>unpack\<close>: the fields and the local variables \<open>dst\<close>, \<open>frame\<close>,
  \<open>frame_pos\<close> and \<open>remaining\<close>. \<open>frame_pos\<close> and \<open>offset\<close> are below \<open>frame_size\<close> when used
  as indices: they start as \<open>0xfee\<close> and as a 12-bit value, and are masked after every
  increment.
\<close>

record rd_state = LzssReader +
  rd_dst :: nat
  rd_frame :: "byte list"
  rd_frame_pos :: nat
  rd_remaining :: nat

definition rd_frame_mask :: "rd_state \<Rightarrow> nat" where
  "rd_frame_mask s = rd_frame_size s - 1"

text \<open>
  The statements both branches run for one output byte: store it in the frame, advance the
  masked cursor, store it in \<open>self.output[dst]\<close> (an \<open>IndexError\<close> when \<open>dst\<close> is outside the
  buffer) and advance \<open>dst\<close>.
\<close>

definition rd_put :: "byte \<Rightarrow> rd_state \<Rightarrow> error + rd_state" where
  "rd_put b s =
     (if length (rd_output s) \<le> rd_dst s then Inl (IndexError ''output'')
      else Inr (s\<lparr>rd_frame := (rd_frame s)[rd_frame_pos s := b],
                  rd_frame_pos := (rd_frame_pos s + 1) AND rd_frame_mask s,
                  rd_output := (rd_output s)[rd_dst s := b],
                  rd_dst := rd_dst s + 1\<rparr>))"

text \<open>The match loop, with the iterations left and \<open>offset\<close>; it breaks when the buffer is full.\<close>

fun rd_copy :: "nat \<Rightarrow> nat \<Rightarrow> rd_state \<Rightarrow> error + rd_state" where
  "rd_copy 0 offset s = Inr s"
| "rd_copy (Suc n) offset s =
     (if length (rd_output s) \<le> rd_dst s then Inr s
      else (case rd_put (rd_frame s ! offset) s of
              Inl e \<Rightarrow> Inl e
            | Inr s' \<Rightarrow> rd_copy n ((offset + 1) AND rd_frame_mask s) s'))"

text \<open>
  The loop \<open>for bit in range(8)\<close> over the bits still to do. \<open>self.input.read(1)[0]\<close> raises
  \<open>IndexError\<close> on an exhausted input, and \<open>lo, hi = self.input.read(2)\<close> raises \<open>ValueError\<close>
  when fewer than two bytes are left. The Boolean tells whether \<open>unpack\<close> returned inside
  the loop.
\<close>

fun rd_bits :: "nat list \<Rightarrow> nat \<Rightarrow> byte list \<Rightarrow> rd_state \<Rightarrow> error + (bool \<times> byte list \<times> rd_state)" where
  "rd_bits [] ctl inp s = Inr (False, inp, s)"
| "rd_bits (bitno # bits) ctl inp s =
     (if length (rd_output s) \<le> rd_dst s then Inr (True, inp, s)
      else if ctl AND push_bit bitno 1 \<noteq> 0 then
        (if rd_remaining s = 0 then Inr (True, inp, s)
         else (case inp of
                 [] \<Rightarrow> Inl (IndexError ''input'')
               | b # rest \<Rightarrow>
                   (case rd_put b (s\<lparr>rd_remaining := rd_remaining s - 1\<rparr>) of
                      Inl e \<Rightarrow> Inl e
                    | Inr s' \<Rightarrow> rd_bits bits ctl rest s')))
      else
        (if rd_remaining s < 2 then Inr (True, inp, s)
         else (case inp of
                 [] \<Rightarrow> Inl ValueError
               | lo # rest \<Rightarrow>
                   (case rest of
                      [] \<Rightarrow> Inl ValueError
                    | hi # rest' \<Rightarrow>
                        (case rd_copy (3 + (unat hi AND 0xF)) (push_bit 4 (unat hi AND 0xf0) OR unat lo)
                                (s\<lparr>rd_remaining := rd_remaining s - 2\<rparr>) of
                           Inl e \<Rightarrow> Inl e
                         | Inr s' \<Rightarrow> rd_bits bits ctl rest' s')))))"

text \<open>The loop \<open>while remaining > 0\<close>.\<close>

function rd_loop :: "byte list \<Rightarrow> rd_state \<Rightarrow> error + (byte list \<times> rd_state)" where
  "rd_loop inp s =
     (if rd_remaining s > 0 then
        (case inp of
           [] \<Rightarrow> Inl (IndexError ''input'')
         | ctl # rest \<Rightarrow>
             (case rd_bits [0..<8] (unat ctl) rest (s\<lparr>rd_remaining := rd_remaining s - 1\<rparr>) of
                Inl e \<Rightarrow> Inl e
              | Inr (True, inp', s') \<Rightarrow> Inr (inp', s')
              | Inr (False, inp', s') \<Rightarrow> rd_loop inp' s'))
      else Inr (inp, s))"
  by pat_completeness auto
termination
proof -
  have put: "rd_put b s = Inr s' \<Longrightarrow> rd_remaining s' = rd_remaining s" for b s s'
    by (auto simp: rd_put_def split: if_splits)
  have copy: "rd_copy n offset s = Inr s' \<Longrightarrow> rd_remaining s' = rd_remaining s" for n offset s s'
  proof (induction n offset s rule: rd_copy.induct)
    case (1 offset s)
    then show ?case by simp
  next
    case (2 n offset s)
    then show ?case
      by (auto split: if_splits sum.splits dest: put)
  qed
  have bits: "rd_bits bits ctl inp s = Inr (r, inp', s') \<Longrightarrow> rd_remaining s' \<le> rd_remaining s"
    for bits ctl inp s r inp' s'
  proof (induction bits ctl inp s rule: rd_bits.induct)
    case (1 ctl inp s)
    then show ?case by simp
  next
    case (2 bitno bits ctl inp s)
    then show ?case
      by (fastforce split: if_splits sum.splits list.splits dest: put copy)
  qed
  show ?thesis
  proof (relation "measure (\<lambda>(inp, s). rd_remaining s)")
    show "wf (measure (\<lambda>(inp, s). rd_remaining s))" by simp
  next
    fix inp :: "byte list" and s :: rd_state and ctl rest x y z inp' s'
    assume pos: "0 < rd_remaining s"
      and "rd_bits [0..<8] (unat ctl) rest (s\<lparr>rd_remaining := rd_remaining s - 1\<rparr>) = Inr x"
      and "(y, z) = x" and "(inp', s') = z"
    then have "rd_bits [0..<8] (unat ctl) rest (s\<lparr>rd_remaining := rd_remaining s - 1\<rparr>)
                 = Inr (y, inp', s')"
      by simp
    then have "rd_remaining s' \<le> rd_remaining (s\<lparr>rd_remaining := rd_remaining s - 1\<rparr>)"
      by (rule bits)
    with pos show "((inp', s'), (inp, s)) \<in> measure (\<lambda>(inp, s). rd_remaining s)"
      by simp
  qed
qed

declare rd_loop.simps [simp del]

text \<open>\<open>unpack\<close> on the reader that \<open>__init__\<close> built: the unread input and the final state.\<close>

definition LzssReader_unpack :: "byte list \<times> LzssReader \<Rightarrow> error + (byte list \<times> rd_state)" where
  "LzssReader_unpack r =
     (case r of (inp, self) \<Rightarrow>
        rd_loop inp
          \<lparr>rd_output = rd_output self, rd_size = rd_size self,
           rd_frame_size = rd_frame_size self, rd_frame_fill = rd_frame_fill self,
           rd_frame_init_pos = rd_frame_init_pos self,
           rd_dst = 0,
           rd_frame = replicate (rd_frame_size self) (rd_frame_fill self),
           rd_frame_pos = rd_frame_init_pos self,
           rd_remaining = rd_size self\<rparr>)"

section \<open>The container: \<open>EmEntry\<close> and \<open>EmeArchive\<close>\<close>

text \<open>
  The fields \<open>name\<close>, \<open>offset\<close> and \<open>size\<close> of \<open>EmEntry\<close> carry the prefix \<open>entry_\<close>, and the fields
  of \<open>EmeArchive\<close> the prefix \<open>self_\<close>. \<open>entry_name\<close> holds the bytes that \<open>get_null_terminated_string\<close>
  passes to \<open>decode('utf-8', errors='replace')\<close>, which never raises.
\<close>

record EmEntry =
  entry_name :: "byte list"
  entry_offset :: nat
  entry_size :: nat
  unpacked_size :: nat
  lzss_frame_size :: nat
  lzss_init_pos :: nat
  sub_type :: nat
  is_packed :: bool

record EmeArchive =
  self_key :: "byte list option"
  self_entries :: "EmEntry list"

text \<open>\<open>__init__\<close>: no key, no entries.\<close>

definition EmeArchive_init :: EmeArchive where
  "EmeArchive_init = \<lparr>self_key = None, self_entries = []\<rparr>"

text \<open>
  A file opened for reading is the list of its bytes. \<open>f.seek(pos)\<close> raises \<open>OSError\<close> for a
  negative position; \<open>f.read(n)\<close> at position \<open>pos\<close> returns the bytes there, fewer than \<open>n\<close> at
  the end of the file, all of them for \<open>n = -1\<close>, and raises \<open>ValueError\<close> for \<open>n < -1\<close>.
\<close>

definition file_seek :: "int \<Rightarrow> error + nat" where
  "file_seek pos = (if pos < 0 then Inl OSError else Inr (nat pos))"

definition file_read :: "byte list \<Rightarrow> nat \<Rightarrow> int \<Rightarrow> error + byte list" where
  "file_read f pos n =
     (if n < - 1 then Inl ValueError
      else if n = - 1 then Inr (drop pos f)
      else Inr (take (nat n) (drop pos f)))"

text \<open>\<open>struct.unpack('<I', bs)[0]\<close>: the buffer must hold exactly four bytes.\<close>

definition unpack_I :: "byte list \<Rightarrow> error + nat" where
  "unpack_I bs = (if length bs = 4 then Inr (from_le bs) else Inl StructError)"

text \<open>A statement that may raise, followed by the statements after it.\<close>

definition then_do :: "error + 'a \<Rightarrow> ('a \<Rightarrow> error + 'b) \<Rightarrow> error + 'b" where
  "then_do m f = (case m of Inl e \<Rightarrow> Inl e | Inr x \<Rightarrow> f x)"

text \<open>
  \<open>data.find(b'\0', start, stop)\<close>, the index of the first zero byte of \<open>data[start:stop]\<close> or
  \<open>-1\<close>, and \<open>get_null_terminated_string\<close>, up to the decoding.
\<close>

definition bytes_find0 :: "byte list \<Rightarrow> nat \<Rightarrow> nat \<Rightarrow> int" where
  "bytes_find0 data start stop =
     (let window = take (stop - start) (drop start data)
      in if 0 \<in> set window then int (start + length (takeWhile (\<lambda>b. b \<noteq> 0) window)) else - 1)"

definition get_null_terminated_string :: "byte list \<Rightarrow> nat \<Rightarrow> nat \<Rightarrow> byte list" where
  "get_null_terminated_string data offset max_length =
     (let found = bytes_find0 data offset (offset + max_length);
          stop = (if found = - 1 then offset + max_length else nat found)
      in take (stop - offset) (drop offset data))"

text \<open>The body of the loop over the index slots, after the slot has been decrypted.\<close>

definition parse_entry :: "byte list \<Rightarrow> nat \<Rightarrow> error + EmEntry" where
  "parse_entry index_data current_offset =
     (let name = get_null_terminated_string index_data current_offset 0x40 in
      then_do (unpack_from 2 index_data (int (current_offset + 0x40))) (\<lambda>frame_size0.
      then_do (unpack_from 2 index_data (int (current_offset + 0x42))) (\<lambda>init_pos0.
      let init_pos = (if frame_size0 \<noteq> 0
                      then nat ((int frame_size0 - int init_pos0) mod int frame_size0)
                      else init_pos0) in
      then_do (unpack_from 4 index_data (int (current_offset + 0x48))) (\<lambda>subtype.
      then_do (unpack_from 4 index_data (int (current_offset + 0x4C))) (\<lambda>sz.
      then_do (unpack_from 4 index_data (int (current_offset + 0x50))) (\<lambda>unpacked.
      then_do (unpack_from 4 index_data (int (current_offset + 0x54))) (\<lambda>off.
      Inr \<lparr>entry_name = name, entry_offset = off, entry_size = sz, unpacked_size = unpacked,
           lzss_frame_size = frame_size0, lzss_init_pos = init_pos, sub_type = subtype,
           is_packed = (unpacked \<noteq> sz)\<rparr>)))))))"

text \<open>
  The loop \<open>for _ in range(entry_count)\<close> with the iterations left. An exception leaves the
  archive with the entries appended before it.
\<close>

fun parse_entries :: "nat \<Rightarrow> byte list \<Rightarrow> nat \<Rightarrow> EmeArchive \<Rightarrow> error option \<times> EmeArchive" where
  "parse_entries 0 index_data current_offset self = (None, self)"
| "parse_entries (Suc n) index_data current_offset self =
     (case self_key self of
        None \<Rightarrow> (Some TypeError, self)
      | Some k \<Rightarrow>
          (case decrypt index_data current_offset 0x60 k of
             Inl e \<Rightarrow> (Some e, self)
           | Inr index_data' \<Rightarrow>
               (case parse_entry index_data' current_offset of
                  Inl e \<Rightarrow> (Some e, self)
                | Inr entry \<Rightarrow>
                    parse_entries n index_data' (current_offset + 0x60)
                      (self\<lparr>self_entries := self_entries self @ [entry]\<rparr>))))"

text \<open>
  The body of \<open>try\<close> in \<open>open\<close>, for a file that could be opened: the value returned or the
  exception raised, and the archive as it is then.
\<close>

definition open_body :: "EmeArchive \<Rightarrow> byte list \<Rightarrow> (error + bool) \<times> EmeArchive" where
  "open_body self f =
     (if take 4 f \<noteq> [0x52, 0x52, 0x45, 0x44] then (Inr False, self)
      else if take 4 (drop 4 f) \<noteq> [0x41, 0x54, 0x41, 0x20] then (Inr False, self)
      else
        let file_size = length f in
        (case then_do (file_seek (int file_size - 4)) (\<lambda>pos.
              then_do (file_read f pos 4) unpack_I) of
           Inl e \<Rightarrow> (Inl e, self)
         | Inr entry_count \<Rightarrow>
             if entry_count > 10000 then (Inr False, self)
             else
               let index_size = entry_count * 0x60;
                   index_offset = int file_size - 4 - int index_size in
               (case then_do (file_seek (index_offset - 40)) (\<lambda>pos. file_read f pos 40) of
                  Inl e \<Rightarrow> (Inl e, self)
                | Inr k \<Rightarrow>
                    let self1 = self\<lparr>self_key := Some k\<rparr> in
                    (case then_do (file_seek index_offset) (\<lambda>pos. file_read f pos (int index_size)) of
                       Inl e \<Rightarrow> (Inl e, self1)
                     | Inr index_data \<Rightarrow>
                         (case parse_entries entry_count index_data 0 self1 of
                            (Some e, self2) \<Rightarrow> (Inl e, self2)
                          | (None, self2) \<Rightarrow> (Inr True, self2))))))"

text \<open>
  \<open>open\<close>: \<open>file\<close> is \<open>None\<close> when the path cannot be opened. Every exception is caught and
  makes the result \<open>False\<close>.
\<close>

definition EmeArchive_open :: "EmeArchive \<Rightarrow> byte list option \<Rightarrow> bool \<times> EmeArchive" where
  "EmeArchive_open self file =
     (case file of
        None \<Rightarrow> (False, self)
      | Some f \<Rightarrow>
          (case open_body self f of
             (Inl e, self') \<Rightarrow> (False, self')
           | (Inr r, self') \<Rightarrow> (r, self')))"

section \<open>The record extractor\<close>

text \<open>
  \<open>EXEME.py\<close> calls a function \<open>decompress\<close> that it imports from \<open>lzss\<close>; \<open>lzss.py\<close> defines no
  such function, so the extractor takes it as a parameter: \<open>decompress data\<close> is the first
  component of the pair the call returns, or the exception it raises. A position given to
  \<open>f.seek\<close> by the extractor is a sum of non-negative integers and needs no check. The result
  of an extraction is the bytes written to the output file.
\<close>

definition extract_script ::
  "(byte list \<Rightarrow> error + byte list) \<Rightarrow> EmeArchive \<Rightarrow> byte list \<Rightarrow> EmEntry \<Rightarrow> error + byte list" where
  "extract_script decompress self f entry =
     then_do (file_read f (entry_offset entry) 12) (\<lambda>header0.
     (case self_key self of
        None \<Rightarrow> Inl TypeError
      | Some k \<Rightarrow>
          then_do (decrypt header0 0 12 k) (\<lambda>header.
          if lzss_frame_size entry = 0 then
            then_do (file_read f (entry_offset entry + 12) (int (entry_size entry))) (\<lambda>rest.
            Inr (header @ rest))
          else
            then_do (unpack_from 4 header 4) (\<lambda>header_unpacked_size.
            if header_unpacked_size \<noteq> 0 \<and> header_unpacked_size < unpacked_size entry then
              then_do (unpack_from 4 header 0) (\<lambda>packed_size.
              let part1_size = unpacked_size entry - header_unpacked_size in
              then_do (file_read f (entry_offset entry + 12 + packed_size)
                         (int (entry_size entry) - int packed_size)) (\<lambda>compressed_part1.
              then_do (decompress compressed_part1) (\<lambda>decompressed_part1.
              then_do (file_read f (entry_offset entry + 12) (int packed_size)) (\<lambda>compressed_part2.
              then_do (decompress compressed_part2) (\<lambda>decompressed_part2.
              Inr (take part1_size decompressed_part1 @ decompressed_part2))))))
            else
              then_do (file_read f (entry_offset entry + 12) (int (entry_size entry))) (\<lambda>compressed_data.
              decompress compressed_data)))))"

definition extract_regular ::
  "(byte list \<Rightarrow> error + byte list) \<Rightarrow> byte list \<Rightarrow> EmEntry \<Rightarrow> error + byte list" where
  "extract_regular decompress f entry =
     then_do (file_read f (entry_offset entry) (int (entry_size entry))) (\<lambda>data.
     if is_packed entry then decompress data else Inr data)"

text \<open>
  The loop of \<open>extract\<close> over the entries, with the files written so far, each with its name
  and content. The output file system is outside the program: \<open>sink written name\<close> tells whether,
  after the files in \<open>written\<close>, the directories above \<open>output_dir / name\<close> can be made and the
  path opened for writing. For an empty name the path is \<open>output_dir\<close> itself, a directory, and
  opening it raises \<open>IsADirectoryError\<close>. An exception, of the extraction or of the output, is
  reported and the loop goes on with nothing recorded for the entry.
\<close>

fun extract_entries ::
  "(byte list \<Rightarrow> error + byte list) \<Rightarrow> ((byte list \<times> byte list) list \<Rightarrow> byte list \<Rightarrow> bool)
     \<Rightarrow> EmeArchive \<Rightarrow> byte list \<Rightarrow> (byte list \<times> byte list) list \<Rightarrow> EmEntry list
     \<Rightarrow> (byte list \<times> byte list) list" where
  "extract_entries decompress sink self f written [] = written"
| "extract_entries decompress sink self f written (entry # es) =
     (if entry_name entry = [] \<or> \<not> sink written (entry_name entry)
      then extract_entries decompress sink self f written es
      else
        (case (if sub_type entry = 3 then extract_script decompress self f entry
               else extract_regular decompress f entry) of
           Inl e \<Rightarrow> extract_entries decompress sink self f written es
         | Inr data \<Rightarrow>
             extract_entries decompress sink self f (written @ [(entry_name entry, data)]) es))"

definition EmeArchive_extract ::
  "(byte list \<Rightarrow> error + byte list) \<Rightarrow> ((byte list \<times> byte list) list \<Rightarrow> byte list \<Rightarrow> bool)
     \<Rightarrow> EmeArchive \<Rightarrow> byte list \<Rightarrow> (byte list \<times> byte list) list" where
  "EmeArchive_extract decompress sink self f =
     extract_entries decompress sink self f [] (self_entries self)"

section \<open>The program\<close>

text \<open>
  \<open>main\<close>: \<open>argv\<close> is \<open>sys.argv\<close>, and \<open>fs\<close> maps a path to the content of the file there
  (\<open>None\<close> when no file exists at the path).
  The result is the exit status 1, or the files written.
\<close>

datatype outcome = Exit nat | Extracted "(byte list \<times> byte list) list"

definition main ::
  "(byte list \<Rightarrow> error + byte list) \<Rightarrow> ((byte list \<times> byte list) list \<Rightarrow> byte list \<Rightarrow> bool)
     \<Rightarrow> string list \<Rightarrow> (string \<Rightarrow> byte list option) \<Rightarrow> outcome" where
  "main decompress sink argv fs =
     (if length argv \<noteq> 3 then Exit 1
      else (case fs (argv ! 1) of
              None \<Rightarrow> Exit 1
            | Some f \<Rightarrow>
                (case EmeArchive_open EmeArchive_init (Some f) of
                   (False, archive) \<Rightarrow> Exit 1
                 | (True, archive) \<Rightarrow> Extracted (EmeArchive_extract decompress sink archive f))))"

text \<open>
  The names that running \<open>lzss.py\<close> binds at its top level: three imports and five classes.
  \<open>from m import a, b\<close> raises \<open>ImportError\<close> unless the module binds every name.
\<close>

definition lzss_module :: "string list" where
  "lzss_module =
     [''io'', ''Enum'', ''List'', ''Generator'',
      ''LzssMode'', ''LzssSettings'', ''LzssCoroutine'', ''LzssStream'', ''LzssReader'']"

definition import_from :: "string list \<Rightarrow> string list \<Rightarrow> error + unit" where
  "import_from module names = (if set names \<subseteq> set module then Inr () else Inl ImportError)"

text \<open>
  Running \<open>EXEME.py\<close> as a script: the import in line 8 is executed before the classes are
  defined and before \<open>main\<close> is called; the imports of the standard library before it succeed.
  \<open>decompress\<close> stands for what the name would be bound to.
\<close>

definition EXEME_script ::
  "(byte list \<Rightarrow> error + byte list) \<Rightarrow> ((byte list \<times> byte list) list \<Rightarrow> byte list \<Rightarrow> bool)
     \<Rightarrow> string list \<Rightarrow> (string \<Rightarrow> byte list option) \<Rightarrow> error + outcome" where
  "EXEME_script decompress sink argv fs =
     then_do (import_from lzss_module [''decompress'', ''LZSSError'']) (\<lambda>_.
     Inr (main decompress sink argv fs))"

section \<open>Auxiliary functions for the proofs\<close>

text \<open>The word loops, as functions of the region taken four bytes at a time.\<close>

fun xor_words :: "nat \<Rightarrow> byte list \<Rightarrow> byte list" where
  "xor_words key (a # b # c # d # rest) = to_le 4 (from_le [a, b, c, d] XOR key) @ xor_words key rest"
| "xor_words key rest = []"

fun chain_words :: "nat \<Rightarrow> byte list \<Rightarrow> byte list" where
  "chain_words key (a # b # c # d # rest) =
     to_le 4 (from_le [a, b, c, d] XOR key) @ chain_words (from_le [a, b, c, d]) rest"
| "chain_words key rest = []"


text \<open>The \<open>j\<close>-th 32-bit little-endian word of a region.\<close>

definition word_at :: "byte list \<Rightarrow> nat \<Rightarrow> nat" where
  "word_at region j = from_le (take 4 (drop (4 * j) region))"

text \<open>
  The stage cipher in the words of the specification: round \<open>i\<close> of the given order takes
  its stage key from \<open>key[8 + 4*i .. 8 + 4*i + 4)\<close> and its opcode from \<open>key[i]\<close>, and
  works on the region the round before it left.
\<close>

fun apply_stages :: "nat list \<Rightarrow> byte list \<Rightarrow> byte list \<Rightarrow> error + byte list" where
  "apply_stages [] key region = Inr region"
| "apply_stages (i # is) key region =
     (case decrypt_stage (key ! i) (from_le (take 4 (drop (8 + 4 * i) key))) region of
        Inl e \<Rightarrow> Inl e
      | Inr region' \<Rightarrow> apply_stages is key region')"

fun shift_words :: "nat \<Rightarrow> byte list \<Rightarrow> byte list" where
  "shift_words key (a # b # c # d # rest) =
     to_le 4 (shift_value (from_le [a, b, c, d]) key) @ shift_words key rest"
| "shift_words key rest = []"

text \<open>The destination index of source byte \<open>i\<close> in \<open>init_table\<close> for a region of \<open>n\<close> bytes.\<close>

definition table_dest :: "nat \<Rightarrow> nat \<Rightarrow> nat \<Rightarrow> nat" where
  "table_dest key n i = ((i + 1) * key) mod n"

text \<open>
  The layout of a container file \<open>f\<close>: the entry count in its last four bytes, the start of
  the index table, the key material before it, and the raw (encrypted) index slot \<open>j\<close>.
\<close>

definition footer_count :: "byte list \<Rightarrow> nat" where
  "footer_count f = from_le (take 4 (drop (length f - 4) f))"

definition index_start :: "byte list \<Rightarrow> nat" where
  "index_start f = length f - 4 - footer_count f * 0x60"

definition key_material :: "byte list \<Rightarrow> byte list" where
  "key_material f = take 40 (drop (index_start f - 40) f)"

definition raw_slot :: "byte list \<Rightarrow> nat \<Rightarrow> byte list" where
  "raw_slot f j = take 0x60 (drop (index_start f + j * 0x60) f)"

text \<open>The conditions under which \<open>open\<close> reaches the loop over the index slots.\<close>

definition well_formed :: "byte list \<Rightarrow> bool" where
  "well_formed f \<longleftrightarrow>
     take 4 f = [0x52, 0x52, 0x45, 0x44] \<and> take 4 (drop 4 f) = [0x41, 0x54, 0x41, 0x20]
     \<and> footer_count f \<le> 10000 \<and> 44 + footer_count f * 0x60 \<le> length f"

text \<open>
  A container for the examples: the two magic words, a key of 40 zero bytes (every opcode
  is 0, so the stage cipher changes nothing), one index slot and the entry count 1. The slot
  names \<open>a\<close> and gives frame size \<open>0x1000\<close>, raw window position \<open>0x12\<close>, subtype 0, stored size
  5, raw size 9 and data offset 8.
\<close>

definition example_slot :: "byte list" where
  "example_slot =
     0x61 # replicate 63 0 @ [0x00, 0x10, 0x12, 0x00, 0, 0, 0, 0] @ [0, 0, 0, 0] @ [5, 0, 0, 0]
       @ [9, 0, 0, 0] @ [8, 0, 0, 0] @ replicate 8 0"

definition example_container :: "byte list" where
  "example_container =
     [0x52, 0x52, 0x45, 0x44, 0x41, 0x54, 0x41, 0x20] @ replicate 40 0 @ example_slot @ [1, 0, 0, 0]"

text \<open>
  For the examples of script extraction: an archive whose key changes nothing, a script
  entry at offset 0 with the given stored and raw sizes, and a stand-in for \<open>decompress\<close>
  that returns its input with one zero byte in front.
\<close>

definition example_archive :: EmeArchive where
  "example_archive = \<lparr>self_key = Some (replicate 40 0), self_entries = []\<rparr>"

definition script_entry :: "nat \<Rightarrow> nat \<Rightarrow> EmEntry" where
  "script_entry stored raw =
     \<lparr>entry_name = [0x73], entry_offset = 0, entry_size = stored, unpacked_size = raw,
      lzss_frame_size = 0x1000, lzss_init_pos = 0xFEE, sub_type = 3, is_packed = (raw \<noteq> stored)\<rparr>"

definition pad_decompress :: "byte list \<Rightarrow> error + byte list" where
  "pad_decompress data = Inr (0 # data)"


text \<open>
  A key material with the opcodes 3, 0, 8, 4, 0, 0, 2, 1 for the rounds 0 to 7 and the stage
  keys 16 (round 7), 5 (round 6), 1 (round 3) and 3 (round 2).
\<close>

definition sample_key :: "byte list" where
  "sample_key = [3, 0, 8, 4, 0, 0, 2, 1,
                 9, 9, 9, 9,  7, 7, 7, 7,  3, 0, 0, 0,  1, 0, 0, 0,
                 6, 6, 6, 6,  5, 5, 5, 5,  5, 0, 0, 0,  16, 0, 0, 0]"


section \<open>Encoding and the word loops\<close>

lemma length_to_le: "length (to_le n v) = n"
  by (induction n arbitrary: v) auto

lemma from_le_bound: "from_le bs < 256 ^ length bs"
proof (induction bs)
  case Nil
  show ?case by simp
next
  case (Cons b bs)
  have "unat b < 256" using unsigned_less [of b] by simp
  with Cons show ?case by simp
qed

lemma from_le_to_le: "v < 256 ^ n \<Longrightarrow> from_le (to_le n v) = v"
proof (induction n arbitrary: v)
  case 0
  then show ?case by simp
next
  case (Suc n)
  have "v div 256 < 256 ^ n" using Suc.prems by (simp add: less_mult_imp_div_less mult.commute)
  then have "from_le (to_le n (v div 256)) = v div 256" by (rule Suc.IH)
  moreover have "unat (of_nat (v mod 256) :: byte) = v mod 256"
    by (simp add: unat_of_nat)
  ultimately show ?case by simp
qed

lemma to_le_from_le: "to_le (length bs) (from_le bs) = bs"
proof (induction bs)
  case Nil
  show ?case by simp
next
  case (Cons b bs)
  have lt: "unat b < 256" using unsigned_less [of b] by simp
  then have "(unat b + 256 * from_le bs) mod 256 = unat b" by simp
  moreover have "(unat b + 256 * from_le bs) div 256 = from_le bs" using lt by simp
  ultimately show ?case using Cons by simp
qed

lemma struct_offset_nat:
  "struct_offset w n (int j) = (if j + w \<le> n then Inr j else Inl StructError)"
  by (auto simp: struct_offset_def Let_def)

lemma unpack_from_nat:
  "unpack_from w buf (int j) =
     (if j + w \<le> length buf then Inr (from_le (take w (drop j buf))) else Inl StructError)"
  by (simp add: unpack_from_def struct_offset_nat)

lemma pack_into_nat:
  "pack_into buf (int j) v =
     (if j + 4 \<le> length buf \<and> v < 2 ^ 32
      then Inr (take j buf @ to_le 4 v @ drop (j + 4) buf) else Inl StructError)"
  by (auto simp: pack_into_def struct_offset_nat)

lemma xor_nat_bound: "(a::nat) < 2 ^ n \<Longrightarrow> b < 2 ^ n \<Longrightarrow> a XOR b < 2 ^ n"
  by (metis take_bit_nat_eq_self_iff take_bit_xor)


lemma from_le4_bound: "from_le [a, b, c, d] < 2 ^ 32"
  using from_le_bound [of "[a, b, c, d]"] by simp

lemma to_le4_from_le4: "to_le 4 (from_le [a, b, c, d]) = [a, b, c, d]"
proof -
  have "to_le (length [a, b, c, d]) (from_le [a, b, c, d]) = [a, b, c, d]"
    by (rule to_le_from_le)
  moreover have "length [a, b, c, d] = 4" by simp
  ultimately show ?thesis by (simp only:)
qed

lemma from_le_to_le4: "v < 2 ^ 32 \<Longrightarrow> from_le (to_le 4 v) = v"
  using from_le_to_le [of v 4] by simp

lemma to_le4:
  "to_le 4 v = [of_nat (v mod 256), of_nat (v div 256 mod 256),
     of_nat (v div 256 div 256 mod 256), of_nat (v div 256 div 256 div 256 mod 256)]"
proof -
  have "to_le (Suc (Suc (Suc (Suc 0)))) v = [of_nat (v mod 256), of_nat (v div 256 mod 256),
     of_nat (v div 256 div 256 mod 256), of_nat (v div 256 div 256 div 256 mod 256)]"
    by (simp only: to_le.simps)
  moreover have "Suc (Suc (Suc (Suc 0))) = 4" by simp
  ultimately show ?thesis by (simp only:)
qed

lemma to_le4_cases: obtains a b c d where "to_le 4 v = [a, b, c, d]"
  using to_le4 by blast

lemma range4_mult: "range4 (4 * k) = map (\<lambda>i. 4 * i) [0..<k]"
  by (simp add: range4_def)

lemma list4_cases:
  assumes "length rest = 4 * Suc k"
  obtains a b c d rest' where "rest = a # b # c # d # rest'" "length rest' = 4 * k"
proof -
  from assms obtain a r1 where 1: "rest = a # r1" by (cases rest) auto
  with assms obtain b r2 where 2: "r1 = b # r2" by (cases r1) auto
  with 1 assms obtain c r3 where 3: "r2 = c # r3" by (cases r2) auto
  with 1 2 assms obtain d r4 where 4: "r3 = d # r4" by (cases r3) auto
  from 1 2 3 4 assms have "rest = a # b # c # d # r4" "length r4 = 4 * k" by auto
  then show thesis by (rule that)
qed

lemma stage_xor_words:
  "length pre = 4 * m \<Longrightarrow> length rest = 4 * k \<Longrightarrow> key < 2 ^ 32 \<Longrightarrow>
   stage_xor key (map (\<lambda>i. 4 * i) [m..<m + k]) (pre @ rest) = Inr (pre @ xor_words key rest)"
proof (induction k arbitrary: pre rest m)
  case 0
  then show ?case by simp
next
  case (Suc k)
  from Suc.prems(2) obtain a b c d rest' where
    rest: "rest = a # b # c # d # rest'" and len: "length rest' = 4 * k"
    by (rule list4_cases)
  define v where "v = from_le [a, b, c, d]"
  define w where "w = to_le 4 (v XOR key)"
  define j where "j = 4 * m"
  have lw: "length w = 4" by (simp add: w_def length_to_le)
  have bound: "v XOR key < 2 ^ 32"
    unfolding v_def using from_le4_bound Suc.prems(3) by (rule xor_nat_bound)
  have upt: "map (\<lambda>i. 4 * i) [m..<m + Suc k] = j # map (\<lambda>i. 4 * i) [Suc m..<Suc m + k]"
    by (simp add: upt_rec j_def)
  have lp: "length pre = j" using Suc.prems(1) by (simp add: j_def)
  have un: "unpack_from 4 (pre @ rest) (int j) = Inr v"
    unfolding unpack_from_nat using lp by (simp add: rest v_def del: from_le.simps)
  have pk: "pack_into (pre @ rest) (int j) (v XOR key) = Inr ((pre @ w) @ rest')"
    unfolding pack_into_nat using lp bound by (simp add: rest w_def)
  have ih: "stage_xor key (map (\<lambda>i. 4 * i) [Suc m..<Suc m + k]) ((pre @ w) @ rest')
          = Inr ((pre @ w) @ xor_words key rest')"
    using Suc.prems(1) len Suc.prems(3) lw by (intro Suc.IH) simp_all
  have xw: "xor_words key rest = w @ xor_words key rest'"
    by (simp add: rest w_def v_def del: from_le.simps)
  show ?case
    using ih by (simp only: upt stage_xor.simps un pk sum.case xw append_assoc)
qed


lemma stage_chain_words:
  "length pre = 4 * m \<Longrightarrow> length rest = 4 * k \<Longrightarrow> key < 2 ^ 32 \<Longrightarrow>
   stage_chain key (map (\<lambda>i. 4 * i) [m..<m + k]) (pre @ rest) = Inr (pre @ chain_words key rest)"
proof (induction k arbitrary: pre rest m key)
  case 0
  then show ?case by simp
next
  case (Suc k)
  from Suc.prems(2) obtain a b c d rest' where
    rest: "rest = a # b # c # d # rest'" and len: "length rest' = 4 * k"
    by (rule list4_cases)
  define v where "v = from_le [a, b, c, d]"
  define w where "w = to_le 4 (v XOR key)"
  define j where "j = 4 * m"
  have lw: "length w = 4" by (simp add: w_def length_to_le)
  have vb: "v < 2 ^ 32" unfolding v_def by (rule from_le4_bound)
  have bound: "v XOR key < 2 ^ 32"
    using vb Suc.prems(3) by (rule xor_nat_bound)
  have upt: "map (\<lambda>i. 4 * i) [m..<m + Suc k] = j # map (\<lambda>i. 4 * i) [Suc m..<Suc m + k]"
    by (simp add: upt_rec j_def)
  have lp: "length pre = j" using Suc.prems(1) by (simp add: j_def)
  have un: "unpack_from 4 (pre @ rest) (int j) = Inr v"
    unfolding unpack_from_nat using lp by (simp add: rest v_def del: from_le.simps)
  have pk: "pack_into (pre @ rest) (int j) (v XOR key) = Inr ((pre @ w) @ rest')"
    unfolding pack_into_nat using lp bound by (simp add: rest w_def)
  have ih: "stage_chain v (map (\<lambda>i. 4 * i) [Suc m..<Suc m + k]) ((pre @ w) @ rest')
          = Inr ((pre @ w) @ chain_words v rest')"
    using Suc.prems(1) len vb lw by (intro Suc.IH) simp_all
  have xw: "chain_words key rest = w @ chain_words v rest'"
    by (simp add: rest w_def v_def del: from_le.simps)
  show ?case
    using ih by (simp only: upt stage_chain.simps un pk sum.case xw append_assoc)
qed

lemma length_xor_words: "length rest = 4 * k \<Longrightarrow> length (xor_words key rest) = 4 * k"
proof (induction k arbitrary: rest)
  case 0
  then show ?case by simp
next
  case (Suc k)
  from Suc.prems obtain a b c d rest' where
    rest: "rest = a # b # c # d # rest'" and len: "length rest' = 4 * k"
    by (rule list4_cases)
  show ?case using Suc.IH [OF len] by (simp add: rest length_to_le del: from_le.simps)
qed

lemma xor_words_twice:
  "length rest = 4 * k \<Longrightarrow> key < 2 ^ 32 \<Longrightarrow> xor_words key (xor_words key rest) = rest"
proof (induction k arbitrary: rest)
  case 0
  then show ?case by simp
next
  case (Suc k)
  from Suc.prems(1) obtain a b c d rest' where
    rest: "rest = a # b # c # d # rest'" and len: "length rest' = 4 * k"
    by (rule list4_cases)
  define v where "v = from_le [a, b, c, d]"
  obtain a' b' c' d' where w: "to_le 4 (v XOR key) = [a', b', c', d']"
    by (rule to_le4_cases)
  have bound: "v XOR key < 2 ^ 32"
    unfolding v_def using from_le4_bound Suc.prems(2) by (rule xor_nat_bound)
  have "from_le [a', b', c', d'] = v XOR key"
    using from_le_to_le4 [OF bound] by (simp only: w)
  then have "from_le [a', b', c', d'] XOR key = v"
    by (simp add: xor.assoc del: from_le.simps)
  then have restore: "to_le 4 (from_le [a', b', c', d'] XOR key) = [a, b, c, d]"
    by (simp only: v_def to_le4_from_le4)
  have 1: "xor_words key rest = [a', b', c', d'] @ xor_words key rest'"
    by (simp add: rest w v_def [symmetric] del: from_le.simps)
  have 2: "xor_words key ([a', b', c', d'] @ xor_words key rest')
             = [a, b, c, d] @ xor_words key (xor_words key rest')"
    using restore by (simp del: from_le.simps)
  have "xor_words key (xor_words key rest) = xor_words key ([a', b', c', d'] @ xor_words key rest')"
    by (simp only: 1)
  also have "\<dots> = [a, b, c, d] @ xor_words key (xor_words key rest')"
    by (rule 2)
  also have "\<dots> = rest"
    using Suc.IH [OF len Suc.prems(2)] by (simp add: rest)
  finally show ?case .
qed

lemma stage_xor_region:
  assumes "length region = 4 * k" "key < 2 ^ 32"
  shows "decrypt_stage 1 key region = Inr (xor_words key region)"
proof -
  have "stage_xor key (map (\<lambda>i. 4 * i) [0..<0 + k]) ([] @ region) = Inr ([] @ xor_words key region)"
    using assms by (intro stage_xor_words) simp_all
  then show ?thesis
    by (simp add: decrypt_stage_def assms(1) range4_mult)
qed

lemma word_at_0: "length w = 4 \<Longrightarrow> word_at (w @ rest) 0 = from_le w"
  by (simp add: word_at_def)

lemma word_at_Suc: "length w = 4 \<Longrightarrow> word_at (w @ rest) (Suc j) = word_at rest j"
  by (simp add: word_at_def)

lemma word_at_bound: "word_at region j < 2 ^ 32"
proof -
  have "from_le (take 4 (drop (4 * j) region)) < 256 ^ length (take 4 (drop (4 * j) region))"
    by (rule from_le_bound)
  also have "\<dots> \<le> 256 ^ 4" by (rule power_increasing) simp_all
  finally show ?thesis by (simp add: word_at_def)
qed

lemma length_chain_words: "length rest = 4 * k \<Longrightarrow> length (chain_words key rest) = 4 * k"
proof (induction k arbitrary: rest key)
  case 0
  then show ?case by simp
next
  case (Suc k)
  from Suc.prems obtain a b c d rest' where
    rest: "rest = a # b # c # d # rest'" and len: "length rest' = 4 * k"
    by (rule list4_cases)
  show ?case using Suc.IH [OF len] by (simp add: rest length_to_le del: from_le.simps)
qed

lemma chain_words_word_at:
  "length rest = 4 * k \<Longrightarrow> key < 2 ^ 32 \<Longrightarrow> j < k \<Longrightarrow>
   word_at (chain_words key rest) j
     = word_at rest j XOR (if j = 0 then key else word_at rest (j - 1))"
proof (induction k arbitrary: rest key j)
  case 0
  then show ?case by simp
next
  case (Suc k)
  from Suc.prems(1) obtain a b c d rest' where
    rest: "rest = a # b # c # d # rest'" and len: "length rest' = 4 * k"
    by (rule list4_cases)
  define v where "v = from_le [a, b, c, d]"
  define w where "w = to_le 4 (v XOR key)"
  have lw: "length w = 4" by (simp add: w_def length_to_le)
  have vb: "v < 2 ^ 32" unfolding v_def by (rule from_le4_bound)
  have bound: "v XOR key < 2 ^ 32" using vb Suc.prems(2) by (rule xor_nat_bound)
  have cw: "chain_words key rest = w @ chain_words v rest'"
    by (simp add: rest w_def v_def del: from_le.simps)
  have r: "rest = [a, b, c, d] @ rest'" by (simp add: rest)
  have r0: "word_at rest 0 = v"
    unfolding r v_def by (rule word_at_0) simp
  have rS: "word_at rest (Suc i) = word_at rest' i" for i
    unfolding r by (rule word_at_Suc) simp
  show ?case
  proof (cases j)
    case 0
    have "word_at (chain_words key rest) 0 = from_le w"
      unfolding cw using lw by (rule word_at_0)
    also have "\<dots> = v XOR key"
      unfolding w_def using bound by (rule from_le_to_le4)
    finally show ?thesis by (simp add: 0 r0)
  next
    case (Suc j')
    then have j': "j' < k" using Suc.prems(3) by simp
    have "word_at (chain_words key rest) (Suc j') = word_at (chain_words v rest') j'"
      unfolding cw using lw by (rule word_at_Suc)
    also have "\<dots> = word_at rest' j' XOR (if j' = 0 then v else word_at rest' (j' - 1))"
      using len vb j' by (rule Suc.IH)
    also have "(if j' = 0 then v else word_at rest' (j' - 1)) = word_at rest j'"
    proof (cases j')
      case 0
      then show ?thesis by (simp add: r0)
    next
      case (Suc i)
      then show ?thesis by (simp add: rS)
    qed
    finally show ?thesis by (simp add: Suc rS)
  qed
qed

lemma stage_chain_region:
  assumes "length region = 4 * k" "key < 2 ^ 32"
  shows "decrypt_stage 2 key region = Inr (chain_words key region)"
proof -
  have "stage_chain key (map (\<lambda>i. 4 * i) [0..<0 + k]) ([] @ region) = Inr ([] @ chain_words key region)"
    using assms by (intro stage_chain_words) simp_all
  then show ?thesis
    by (simp add: decrypt_stage_def assms(1) range4_mult)
qed

lemma decrypt_rounds_stages:
  "length routine = 40 \<Longrightarrow> n \<le> 8 \<Longrightarrow>
   decrypt_rounds (rev [0..<n]) routine (int (8 + 4 * n)) data
     = apply_stages (rev [0..<n]) routine data"
proof (induction n arbitrary: data)
  case 0
  then show ?case by simp
next
  case (Suc n)
  have ki: "int (8 + 4 * Suc n) - 4 = int (8 + 4 * n)" by simp
  have un: "unpack_from 4 routine (int (8 + 4 * n)) = Inr (from_le (take 4 (drop (8 + 4 * n) routine)))"
    unfolding unpack_from_nat using Suc.prems by simp
  have idx: "\<not> length routine \<le> n" using Suc.prems by simp
  have ih: "decrypt_rounds (rev [0..<n]) routine (int (8 + 4 * n)) d
              = apply_stages (rev [0..<n]) routine d" for d
    using Suc.prems by (intro Suc.IH) simp_all
  have r: "rev [0..<Suc n] = n # rev [0..<n]" by simp
  show ?case
    unfolding r decrypt_rounds.simps apply_stages.simps ki un
    using ih by (simp add: idx split: sum.splits)
qed

lemma rev_upt_8: "rev [0..<8] = [7, 6, 5, 4, 3, 2, 1, 0 :: nat]"
  by (simp add: upt_rec)

lemma decrypt_stage_noop:
  "opcode \<noteq> 1 \<Longrightarrow> opcode \<noteq> 2 \<Longrightarrow> opcode \<noteq> 4 \<Longrightarrow> opcode \<noteq> 8 \<Longrightarrow>
   decrypt_stage opcode k region = Inr region"
  by (simp add: decrypt_stage_def)

section \<open>The bit redistribution and the byte permutation\<close>

lemma bit_single_source:
  "bit (push_bit s (drop_bit i val AND (1::nat))) n \<longleftrightarrow> n = s \<and> bit val i"
proof -
  have "bit (push_bit s (drop_bit i val AND (1::nat))) n
          \<longleftrightarrow> s \<le> n \<and> bit (drop_bit i val AND 1) (n - s)"
    by (simp add: bit_push_bit_iff)
  also have "\<dots> \<longleftrightarrow> s \<le> n \<and> n - s = 0 \<and> bit (drop_bit i val) 0"
    by (auto simp: bit_and_iff bit_1_iff bit_0)
  also have "\<dots> \<longleftrightarrow> n = s \<and> bit val i"
    by (auto simp: bit_drop_bit_eq)
  finally show ?thesis .
qed

lemma shift_value_loop_bit:
  "bit (shift_value_loop [a..<b] val key (a * key) result) n \<longleftrightarrow>
     bit result n \<or> (\<exists>i. a \<le> i \<and> i < b \<and> bit val i \<and> ((i + 1) * key) mod 32 = n)"
proof (induction "b - a" arbitrary: a result)
  case 0
  then show ?case by force
next
  case (Suc d)
  then have lt: "a < b" and d: "d = b - Suc a" by simp_all
  have upt: "[a..<b] = a # [Suc a..<b]" using lt by (simp add: upt_rec)
  have sh: "a * key + key = Suc a * key" by simp
  have ih: "bit (shift_value_loop [Suc a..<b] val key (Suc a * key) r) n \<longleftrightarrow>
     bit r n \<or> (\<exists>i. Suc a \<le> i \<and> i < b \<and> bit val i \<and> ((i + 1) * key) mod 32 = n)" for r
    using d by (rule Suc.hyps(1))
  have split: "(\<exists>i. a \<le> i \<and> i < b \<and> P i) \<longleftrightarrow> P a \<or> (\<exists>i. Suc a \<le> i \<and> i < b \<and> P i)" for P
    using lt by (metis Suc_leD Suc_leI le_eq_less_or_eq)
  show ?case
    unfolding upt shift_value_loop.simps sh ih bit_or_iff bit_single_source
    by (subst split) auto
qed

lemma shift_value_bit:
  "bit (shift_value v key) n \<longleftrightarrow> (\<exists>b<32. bit v b \<and> ((b + 1) * key) mod 32 = n)"
  using shift_value_loop_bit [of 0 32 v key 0 n] by (simp add: shift_value_def)

lemma shift_value_bound: "shift_value v key < 2 ^ 32"
proof -
  have "take_bit 32 (shift_value v key) = shift_value v key"
  proof (rule bit_eqI)
    fix n
    have "bit (shift_value v key) n \<Longrightarrow> n < 32"
      unfolding shift_value_bit using mod_less_divisor [of 32] by auto
    then show "bit (take_bit 32 (shift_value v key)) n \<longleftrightarrow> bit (shift_value v key) n"
      by (auto simp: bit_take_bit_iff)
  qed
  then show ?thesis by (simp only: take_bit_nat_eq_self_iff)
qed

lemma gcd_32_even: "gcd key (32::nat) \<noteq> 1 \<Longrightarrow> even key"
proof (rule ccontr)
  assume g: "gcd key (32::nat) \<noteq> 1" and "odd key"
  then have "coprime key 2" by (simp add: coprime_right_2_iff_odd)
  then have "coprime key (2 ^ 5)" by (simp only: coprime_power_right_iff) simp
  then have "gcd key 32 = 1" by (simp add: coprime_iff_gcd_eq_1 del: coprime_power_right_iff)
  with g show False by simp
qed

lemma shift_dest_merge:
  assumes "even key"
  shows "((b + 17) * key) mod 32 = ((b + 1) * key) mod (32::nat)"
proof -
  from assms obtain m where m: "key = 2 * m" by (auto elim: evenE)
  have "(b + 17) * key = (b + 1) * key + 32 * m" by (simp add: m algebra_simps)
  then show ?thesis by (simp only: mod_mult_self2)
qed

lemma shift_value_single_bit:
  "bit (shift_value (2 ^ b) key) n \<longleftrightarrow> b < 32 \<and> ((b + 1) * key) mod 32 = n"
  unfolding shift_value_bit by (auto simp: bit_simps)

lemma shift_value_merge:
  assumes "even key" "b < 16"
  shows "shift_value (2 ^ b) key = shift_value (2 ^ (b + 16)) key"
proof (rule bit_eqI)
  fix n
  have "b + 16 + 1 = b + 17" by simp
  then have e: "((b + 16 + 1) * key) mod 32 = ((b + 1) * key) mod 32"
    using shift_dest_merge [OF assms(1), of b] by (simp only:)
  show "bit (shift_value (2 ^ b) key) n \<longleftrightarrow> bit (shift_value (2 ^ (b + 16)) key) n"
    unfolding shift_value_single_bit e using assms(2) by simp
qed

lemma stage_shift_words:
  "length pre = 4 * m \<Longrightarrow> length rest = 4 * k \<Longrightarrow>
   stage_shift key (map (\<lambda>i. 4 * i) [m..<m + k]) (pre @ rest) = Inr (pre @ shift_words key rest)"
proof (induction k arbitrary: pre rest m)
  case 0
  then show ?case by simp
next
  case (Suc k)
  from Suc.prems(2) obtain a b c d rest' where
    rest: "rest = a # b # c # d # rest'" and len: "length rest' = 4 * k"
    by (rule list4_cases)
  define v where "v = from_le [a, b, c, d]"
  define w where "w = to_le 4 (shift_value v key)"
  define j where "j = 4 * m"
  have lw: "length w = 4" by (simp add: w_def length_to_le)
  have bound: "shift_value v key < 2 ^ 32" by (rule shift_value_bound)
  have upt: "map (\<lambda>i. 4 * i) [m..<m + Suc k] = j # map (\<lambda>i. 4 * i) [Suc m..<Suc m + k]"
    by (simp add: upt_rec j_def)
  have lp: "length pre = j" using Suc.prems(1) by (simp add: j_def)
  have un: "unpack_from 4 (pre @ rest) (int j) = Inr v"
    unfolding unpack_from_nat using lp by (simp add: rest v_def del: from_le.simps)
  have pk: "pack_into (pre @ rest) (int j) (shift_value v key) = Inr ((pre @ w) @ rest')"
    unfolding pack_into_nat using lp bound by (simp add: rest w_def)
  have ih: "stage_shift key (map (\<lambda>i. 4 * i) [Suc m..<Suc m + k]) ((pre @ w) @ rest')
          = Inr ((pre @ w) @ shift_words key rest')"
    using Suc.prems(1) len lw by (intro Suc.IH) simp_all
  have xw: "shift_words key rest = w @ shift_words key rest'"
    by (simp add: rest w_def v_def del: from_le.simps)
  show ?case
    using ih by (simp only: upt stage_shift.simps un pk sum.case xw append_assoc)
qed

lemma stage_shift_region:
  assumes "length region = 4 * k"
  shows "decrypt_stage 4 key region = Inr (shift_words key region)"
proof -
  have "stage_shift key (map (\<lambda>i. 4 * i) [0..<0 + k]) ([] @ region) = Inr ([] @ shift_words key region)"
    using assms by (intro stage_shift_words) simp_all
  then show ?thesis
    by (simp add: decrypt_stage_def assms(1) range4_mult)
qed

lemma length_shift_words: "length rest = 4 * k \<Longrightarrow> length (shift_words key rest) = 4 * k"
proof (induction k arbitrary: rest)
  case 0
  then show ?case by simp
next
  case (Suc k)
  from Suc.prems obtain a b c d rest' where
    rest: "rest = a # b # c # d # rest'" and len: "length rest' = 4 * k"
    by (rule list4_cases)
  show ?case using Suc.IH [OF len] by (simp add: rest length_to_le del: from_le.simps)
qed

lemma shift_words_word_at:
  "length rest = 4 * k \<Longrightarrow> j < k \<Longrightarrow>
   word_at (shift_words key rest) j = shift_value (word_at rest j) key"
proof (induction k arbitrary: rest j)
  case 0
  then show ?case by simp
next
  case (Suc k)
  from Suc.prems(1) obtain a b c d rest' where
    rest: "rest = a # b # c # d # rest'" and len: "length rest' = 4 * k"
    by (rule list4_cases)
  define v where "v = from_le [a, b, c, d]"
  define w where "w = to_le 4 (shift_value v key)"
  have lw: "length w = 4" by (simp add: w_def length_to_le)
  have cw: "shift_words key rest = w @ shift_words key rest'"
    by (simp add: rest w_def v_def del: from_le.simps)
  have r: "rest = [a, b, c, d] @ rest'" by (simp add: rest)
  have r0: "word_at rest 0 = v"
    unfolding r v_def by (rule word_at_0) simp
  have rS: "word_at rest (Suc i) = word_at rest' i" for i
    unfolding r by (rule word_at_Suc) simp
  show ?case
  proof (cases j)
    case 0
    have "word_at (shift_words key rest) 0 = from_le w"
      unfolding cw using lw by (rule word_at_0)
    also have "\<dots> = shift_value v key"
      unfolding w_def using shift_value_bound by (rule from_le_to_le4)
    finally show ?thesis by (simp add: 0 r0)
  next
    case (Suc j')
    then have j': "j' < k" using Suc.prems(2) by simp
    have "word_at (shift_words key rest) (Suc j') = word_at (shift_words key rest') j'"
      unfolding cw using lw by (rule word_at_Suc)
    also have "\<dots> = shift_value (word_at rest' j') key"
      using len j' by (rule Suc.IH)
    finally show ?thesis by (simp add: Suc rS)
  qed
qed

lemma table_dest_less: "0 < n \<Longrightarrow> table_dest key n i < n"
  by (simp add: table_dest_def)

lemma init_table_loop_spec:
  assumes "length table = length buffer" and "b \<le> length buffer"
  shows "length (init_table_loop [a..<b] buffer key ((a * key) mod length buffer) table) = length buffer
    \<and> (\<forall>i. a \<le> i \<and> i < b \<and> (\<forall>i'. i < i' \<and> i' < b \<longrightarrow>
              table_dest key (length buffer) i' \<noteq> table_dest key (length buffer) i) \<longrightarrow>
            init_table_loop [a..<b] buffer key ((a * key) mod length buffer) table
              ! table_dest key (length buffer) i = buffer ! i)
    \<and> (\<forall>j. (\<forall>i. a \<le> i \<and> i < b \<longrightarrow> table_dest key (length buffer) i \<noteq> j) \<longrightarrow>
            init_table_loop [a..<b] buffer key ((a * key) mod length buffer) table ! j = table ! j)"
  using assms
proof (induction "b - a" arbitrary: a table)
  case 0
  then show ?case by force
next
  case (Suc d)
  define n where "n = length buffer"
  from Suc have lt: "a < b" and d: "d = b - Suc a" by simp_all
  have n0: "0 < n" using lt Suc.prems(2) unfolding n_def by linarith
  have upt: "[a..<b] = a # [Suc a..<b]" using lt by (simp add: upt_rec)
  have x: "((a * key) mod n + key) mod n = table_dest key n a"
    by (simp add: table_dest_def mod_simps algebra_simps)
  have x': "table_dest key n a = (Suc a * key) mod n"
    by (simp add: table_dest_def)
  define table' where "table' = table[table_dest key n a := buffer ! a]"
  define r where "r = init_table_loop [Suc a..<b] buffer key ((Suc a * key) mod n) table'"
  have step: "init_table_loop [a..<b] buffer key ((a * key) mod n) table = r"
    unfolding upt init_table_loop.simps r_def table'_def n_def [symmetric] x x' ..
  have lt': "length table' = length buffer"
    using Suc.prems(1) by (simp add: table'_def)
  have ih: "length r = n
    \<and> (\<forall>i. Suc a \<le> i \<and> i < b \<and> (\<forall>i'. i < i' \<and> i' < b \<longrightarrow>
              table_dest key n i' \<noteq> table_dest key n i) \<longrightarrow>
            r ! table_dest key n i = buffer ! i)
    \<and> (\<forall>j. (\<forall>i. Suc a \<le> i \<and> i < b \<longrightarrow> table_dest key n i \<noteq> j) \<longrightarrow> r ! j = table' ! j)"
    unfolding r_def n_def using d lt' Suc.prems(2) by (rule Suc.hyps(1))
  have dn: "table_dest key n a < length table"
    using n0 Suc.prems(1) by (simp add: table_dest_less n_def)
  have 1: "length r = n" using ih by blast
  have 2: "r ! table_dest key n i = buffer ! i"
    if "a \<le> i" "i < b" "\<forall>i'. i < i' \<and> i' < b \<longrightarrow> table_dest key n i' \<noteq> table_dest key n i" for i
  proof (cases "i = a")
    case True
    have "\<forall>i'. Suc a \<le> i' \<and> i' < b \<longrightarrow> table_dest key n i' \<noteq> table_dest key n a"
      using that(3) True by auto
    then have "r ! table_dest key n a = table' ! table_dest key n a"
      using ih by blast
    also have "\<dots> = buffer ! a"
      using dn by (simp add: table'_def)
    finally show ?thesis using True by simp
  next
    case False
    then have "Suc a \<le> i" using that(1) by simp
    with ih that(2,3) show ?thesis by blast
  qed
  have 3: "r ! j = table ! j"
    if "\<forall>i. a \<le> i \<and> i < b \<longrightarrow> table_dest key n i \<noteq> j" for j
  proof -
    have "\<forall>i. Suc a \<le> i \<and> i < b \<longrightarrow> table_dest key n i \<noteq> j"
      using that by auto
    then have "r ! j = table' ! j" using ih by blast
    moreover have "table_dest key n a \<noteq> j" using that lt by auto
    ultimately show ?thesis by (simp add: table'_def)
  qed
  show ?case
    unfolding n_def [symmetric] step using 1 2 3 by blast
qed

lemma init_table_spec:
  "length (init_table buffer key) = length buffer
   \<and> (\<forall>i. i < length buffer \<and> (\<forall>i'. i < i' \<and> i' < length buffer \<longrightarrow>
              table_dest key (length buffer) i' \<noteq> table_dest key (length buffer) i) \<longrightarrow>
            init_table buffer key ! table_dest key (length buffer) i = buffer ! i)
   \<and> (\<forall>j. j < length buffer \<and> (\<forall>i. i < length buffer \<longrightarrow> table_dest key (length buffer) i \<noteq> j) \<longrightarrow>
            init_table buffer key ! j = 0)"
proof -
  define n where "n = length buffer"
  define r where "r = init_table_loop [0..<n] buffer key ((0 * key) mod n) (replicate n 0)"
  have r: "init_table buffer key = r"
    by (simp add: init_table_def r_def n_def)
  have "length (replicate n (0::byte)) = length buffer" "n \<le> length buffer"
    by (simp_all add: n_def)
  from init_table_loop_spec [OF this, of 0 key]
  have spec: "length r = n
    \<and> (\<forall>i. 0 \<le> i \<and> i < n \<and> (\<forall>i'. i < i' \<and> i' < n \<longrightarrow>
              table_dest key n i' \<noteq> table_dest key n i) \<longrightarrow>
            r ! table_dest key n i = buffer ! i)
    \<and> (\<forall>j. (\<forall>i. 0 \<le> i \<and> i < n \<longrightarrow> table_dest key n i \<noteq> j) \<longrightarrow> r ! j = replicate n 0 ! j)"
    unfolding r_def n_def .
  have 1: "length r = n" using spec by blast
  have 2: "r ! table_dest key n i = buffer ! i"
    if "i < n" "\<forall>i'. i < i' \<and> i' < n \<longrightarrow> table_dest key n i' \<noteq> table_dest key n i" for i
    using spec that by blast
  have 3: "r ! j = 0" if "j < n" "\<forall>i. i < n \<longrightarrow> table_dest key n i \<noteq> j" for j
  proof -
    have "r ! j = replicate n 0 ! j" using spec that(2) by blast
    then show ?thesis using that(1) by simp
  qed
  show ?thesis
    unfolding r n_def [symmetric] using 1 2 3 by blast
qed

lemma table_dest_collision:
  assumes "0 < n" and "gcd key n \<noteq> 1"
  shows "\<exists>i i'. i < i' \<and> i' < n \<and> table_dest key n i = table_dest key n i'"
proof -
  define g where "g = gcd key n"
  have g0: "g \<noteq> 0" using assms(1) by (simp add: g_def)
  with assms(2) have g2: "2 \<le> g" unfolding g_def by linarith
  have "g dvd n" by (simp add: g_def)
  then obtain q where q: "n = g * q" by (rule dvdE)
  have "g dvd key" by (simp add: g_def)
  then obtain c where c: "key = g * c" by (rule dvdE)
  have q0: "0 < q" using assms(1) q by (cases q) auto
  have "1 * q < g * q" using g2 q0 by (intro mult_strict_right_mono) simp_all
  then have qn: "q < n" by (simp add: q)
  have "(q + 1) * key = key + n * c" by (simp add: q c algebra_simps)
  then have "table_dest key n q = key mod n"
    by (simp add: table_dest_def)
  moreover have "table_dest key n 0 = key mod n"
    by (simp add: table_dest_def)
  ultimately have "table_dest key n 0 = table_dest key n q" by simp
  with q0 qn show ?thesis by blast
qed

section \<open>The length-bounded decoder stays inside its buffer\<close>

lemma rd_put_Inr:
  assumes "rd_put b s = Inr s'"
  shows "length (rd_output s') = length (rd_output s)" and "rd_dst s' = rd_dst s + 1"
    and "rd_dst s < length (rd_output s)" and "rd_remaining s' = rd_remaining s"
    and "\<And>i. rd_dst s' \<le> i \<Longrightarrow> rd_output s' ! i = rd_output s ! i"
  using assms by (auto simp: rd_put_def split: if_splits)

lemma rd_put_ok:
  "rd_dst s < length (rd_output s) \<Longrightarrow> \<exists>s'. rd_put b s = Inr s'"
  by (simp add: rd_put_def)

lemma rd_copy_ok: "\<exists>s'. rd_copy n offset s = Inr s'"
proof (induction n offset s rule: rd_copy.induct)
  case (1 offset s)
  show ?case by simp
next
  case (2 n offset s)
  show ?case
  proof (cases "length (rd_output s) \<le> rd_dst s")
    case True
    then show ?thesis by simp
  next
    case False
    then obtain s1 where s1: "rd_put (rd_frame s ! offset) s = Inr s1"
      using rd_put_ok [of s] by (auto simp: not_le)
    from "2.IH" [OF False s1] show ?thesis using False s1 by simp
  qed
qed

lemma rd_copy_Inr:
  assumes "rd_copy n offset s = Inr s'"
  shows "length (rd_output s') = length (rd_output s) \<and> rd_dst s \<le> rd_dst s'
     \<and> (rd_dst s \<le> length (rd_output s) \<longrightarrow> rd_dst s' \<le> length (rd_output s))
     \<and> rd_remaining s' = rd_remaining s
     \<and> (\<forall>i. rd_dst s' \<le> i \<longrightarrow> rd_output s' ! i = rd_output s ! i)"
  using assms
proof (induction n offset s rule: rd_copy.induct)
  case (1 offset s)
  then show ?case by simp
next
  case (2 n offset s)
  show ?case
  proof (cases "length (rd_output s) \<le> rd_dst s")
    case True
    with "2.prems" show ?thesis by simp
  next
    case False
    then obtain s1 where s1: "rd_put (rd_frame s ! offset) s = Inr s1"
      using rd_put_ok [of s] by (auto simp: not_le)
    from "2.prems" False s1
    have "rd_copy n ((offset + 1) AND rd_frame_mask s) s1 = Inr s'" by simp
    from "2.IH" [OF False s1 this] rd_put_Inr [OF s1] show ?thesis by auto
  qed
qed


lemma rd_bits_Inr:
  assumes "rd_bits bits ctl inp s = Inr (r, inp', s')"
  shows "length (rd_output s') = length (rd_output s) \<and> rd_dst s \<le> rd_dst s'
     \<and> (rd_dst s \<le> length (rd_output s) \<longrightarrow> rd_dst s' \<le> length (rd_output s))
     \<and> (\<forall>i. rd_dst s' \<le> i \<longrightarrow> rd_output s' ! i = rd_output s ! i)
     \<and> (rd_remaining s \<le> length inp \<longrightarrow> rd_remaining s' \<le> length inp')"
  using assms
proof (induction bits ctl inp s rule: rd_bits.induct)
  case (1 ctl inp s)
  then show ?case by simp
next
  case (2 bitno bits ctl inp s)
  show ?case
  proof (cases "length (rd_output s) \<le> rd_dst s")
    case True
    with "2.prems" show ?thesis by simp
  next
    case nfull: False
    show ?thesis
    proof (cases "ctl AND push_bit bitno 1 \<noteq> 0")
      case lit: True
      show ?thesis
      proof (cases "rd_remaining s = 0")
        case True
        with "2.prems" nfull lit show ?thesis by simp
      next
        case rem: False
        from "2.prems" nfull lit rem obtain b rest where inp: "inp = b # rest"
          by (cases inp) auto
        define s0 where "s0 = s\<lparr>rd_remaining := rd_remaining s - 1\<rparr>"
        from "2.prems" nfull lit rem inp obtain s1 where
          s1: "rd_put b s0 = Inr s1" and rec: "rd_bits bits ctl rest s1 = Inr (r, inp', s')"
          by (auto simp: s0_def split: sum.splits)
        note ih = "2.IH"(1) [OF nfull lit rem inp s1 [unfolded s0_def] rec]
        note p = rd_put_Inr [OF s1]
        have "rd_remaining s \<le> length inp \<Longrightarrow> rd_remaining s1 \<le> length rest"
          using p(4) rem by (simp add: s0_def inp)
        with ih p show ?thesis by (auto simp: s0_def)
      qed
    next
      case mat: False
      show ?thesis
      proof (cases "rd_remaining s < 2")
        case True
        with "2.prems" nfull mat show ?thesis by simp
      next
        case rem: False
        from "2.prems" nfull mat rem obtain lo rest where inp: "inp = lo # rest"
          by (cases inp) auto
        from "2.prems" nfull mat rem inp obtain hi rest' where rest: "rest = hi # rest'"
          by (cases rest) auto
        define s0 where "s0 = s\<lparr>rd_remaining := rd_remaining s - 2\<rparr>"
        from "2.prems" nfull mat rem inp rest obtain s1 where
          s1: "rd_copy (3 + (unat hi AND 0xF)) (push_bit 4 (unat hi AND 0xf0) OR unat lo) s0 = Inr s1"
          and rec: "rd_bits bits ctl rest' s1 = Inr (r, inp', s')"
          by (auto simp: s0_def split: sum.splits)
        note ih = "2.IH"(2) [OF nfull mat rem inp rest s1 [unfolded s0_def] rec]
        note p = rd_copy_Inr [OF s1]
        have "rd_remaining s \<le> length inp \<Longrightarrow> rd_remaining s1 \<le> length rest'"
          using p rem by (simp add: s0_def inp rest)
        with ih p show ?thesis by (auto simp: s0_def)
      qed
    qed
  qed
qed

lemma rd_bits_Inl:
  assumes "rd_bits bits ctl inp s = Inl e"
  shows "e \<noteq> IndexError ''output'' \<and> length inp < rd_remaining s"
  using assms
proof (induction bits ctl inp s rule: rd_bits.induct)
  case (1 ctl inp s)
  then show ?case by simp
next
  case (2 bitno bits ctl inp s)
  from "2.prems" have nfull: "\<not> length (rd_output s) \<le> rd_dst s"
    by (auto split: if_splits)
  show ?case
  proof (cases "ctl AND push_bit bitno 1 \<noteq> 0")
    case lit: True
    from "2.prems" nfull lit have rem: "rd_remaining s \<noteq> 0"
      by (auto split: if_splits)
    show ?thesis
    proof (cases inp)
      case Nil
      with "2.prems" nfull lit rem show ?thesis by auto
    next
      case (Cons b rest)
      define s0 where "s0 = s\<lparr>rd_remaining := rd_remaining s - 1\<rparr>"
      have "rd_dst s0 < length (rd_output s0)" using nfull by (simp add: s0_def)
      then obtain s1 where s1: "rd_put b s0 = Inr s1" using rd_put_ok by blast
      with "2.prems" nfull lit rem Cons have rec: "rd_bits bits ctl rest s1 = Inl e"
        by (simp add: s0_def)
      note ih = "2.IH"(1) [OF nfull lit rem Cons s1 [unfolded s0_def] rec]
      with rd_put_Inr(4) [OF s1] show ?thesis by (auto simp: s0_def Cons)
    qed
  next
    case mat: False
    from "2.prems" nfull mat have rem: "\<not> rd_remaining s < 2"
      by (auto split: if_splits)
    show ?thesis
    proof (cases inp)
      case Nil
      with "2.prems" nfull mat rem show ?thesis by auto
    next
      case (Cons lo rest)
      show ?thesis
      proof (cases rest)
        case Nil
        with "2.prems" nfull mat rem Cons show ?thesis by auto
      next
        case rest: (Cons hi rest')
        define s0 where "s0 = s\<lparr>rd_remaining := rd_remaining s - 2\<rparr>"
        obtain s1 where
          s1: "rd_copy (3 + (unat hi AND 0xF)) (push_bit 4 (unat hi AND 0xf0) OR unat lo) s0 = Inr s1"
          using rd_copy_ok by blast
        with "2.prems" nfull mat rem Cons rest have rec: "rd_bits bits ctl rest' s1 = Inl e"
          by (simp add: s0_def)
        note ih = "2.IH"(2) [OF nfull mat rem Cons rest s1 [unfolded s0_def] rec]
        with rd_copy_Inr [OF s1] show ?thesis by (auto simp: s0_def Cons rest)
      qed
    qed
  qed
qed


lemma rd_loop_Inr:
  assumes "rd_loop inp s = Inr (inp', s')"
  shows "length (rd_output s') = length (rd_output s) \<and> rd_dst s \<le> rd_dst s'
     \<and> (rd_dst s \<le> length (rd_output s) \<longrightarrow> rd_dst s' \<le> length (rd_output s))
     \<and> (\<forall>i. rd_dst s' \<le> i \<longrightarrow> rd_output s' ! i = rd_output s ! i)"
  using assms
proof (induction inp s rule: rd_loop.induct)
  case (1 inp s)
  show ?case
  proof (cases "rd_remaining s > 0")
    case False
    with "1.prems" show ?thesis by (simp add: rd_loop.simps)
  next
    case pos: True
    from "1.prems" pos obtain ctl rest where inp: "inp = ctl # rest"
      by (cases inp) (auto simp: rd_loop.simps)
    define s0 where "s0 = s\<lparr>rd_remaining := rd_remaining s - 1\<rparr>"
    from "1.prems" pos inp obtain r inp1 s1 where
      b: "rd_bits [0..<8] (unat ctl) rest s0 = Inr (r, inp1, s1)"
      by (cases "rd_bits [0..<8] (unat ctl) rest s0")
         (auto simp: rd_loop.simps s0_def)
    note p = rd_bits_Inr [OF b]
    show ?thesis
    proof (cases r)
      case True
      with "1.prems" pos inp b have "inp' = inp1" "s' = s1"
        by (auto simp: rd_loop.simps s0_def)
      with p show ?thesis by (auto simp: s0_def)
    next
      case False
      with "1.prems" pos inp b have rec: "rd_loop inp1 s1 = Inr (inp', s')"
        by (auto simp: rd_loop.simps s0_def)
      have bF: "rd_bits [0..<8] (unat ctl) rest (s\<lparr>rd_remaining := rd_remaining s - 1\<rparr>)
                  = Inr (False, inp1, s1)"
        using b False by (simp add: s0_def)
      note ih = "1.IH" [OF pos inp bF refl refl refl rec]
      with p show ?thesis by (auto simp: s0_def)
    qed
  qed
qed


lemma rd_loop_Inl:
  assumes "rd_loop inp s = Inl e"
  shows "e \<noteq> IndexError ''output'' \<and> length inp < rd_remaining s"
  using assms
proof (induction inp s rule: rd_loop.induct)
  case (1 inp s)
  from "1.prems" have pos: "rd_remaining s > 0"
    by (auto simp: rd_loop.simps split: if_splits)
  show ?case
  proof (cases inp)
    case Nil
    with "1.prems" pos show ?thesis by (auto simp: rd_loop.simps)
  next
    case inp: (Cons ctl rest)
    define s0 where "s0 = s\<lparr>rd_remaining := rd_remaining s - 1\<rparr>"
    show ?thesis
    proof (cases "rd_bits [0..<8] (unat ctl) rest s0")
      case (Inl e')
      with "1.prems" pos inp have "e' = e"
        by (auto simp: rd_loop.simps s0_def)
      with rd_bits_Inl [OF Inl] pos show ?thesis by (auto simp: s0_def inp)
    next
      case (Inr x)
      obtain r inp1 s1 where x: "x = (r, inp1, s1)" by (cases x) auto
      from "1.prems" pos inp Inr x have r: "r = False" and rec: "rd_loop inp1 s1 = Inl e"
        by (auto simp: rd_loop.simps s0_def split: if_splits bool.splits)
      have bF: "rd_bits [0..<8] (unat ctl) rest (s\<lparr>rd_remaining := rd_remaining s - 1\<rparr>)
                  = Inr (False, inp1, s1)"
        using Inr x r by (simp add: s0_def)
      note ih = "1.IH" [OF pos inp bF refl refl refl rec]
      have "rd_bits [0..<8] (unat ctl) rest s0 = Inr (r, inp1, s1)" using Inr x by simp
      note p = rd_bits_Inr [OF this]
      have "length inp < rd_remaining s"
      proof (rule ccontr)
        assume "\<not> length inp < rd_remaining s"
        then have "rd_remaining s0 \<le> length rest" by (simp add: s0_def inp)
        with p have "rd_remaining s1 \<le> length inp1" by blast
        with ih show False by simp
      qed
      with ih show ?thesis by simp
    qed
  qed
qed

lemma reader_bounded:
  "LzssReader_unpack (LzssReader_init input_stream input_length output_length)
      \<noteq> Inl (IndexError ''output'')
   \<and> (\<forall>inp s. LzssReader_unpack (LzssReader_init input_stream input_length output_length) = Inr (inp, s)
         \<longrightarrow> length (rd_output s) = output_length \<and> rd_dst s \<le> output_length
             \<and> (\<forall>i. rd_dst s \<le> i \<and> i < output_length \<longrightarrow> rd_output s ! i = 0))
   \<and> (input_length \<le> length input_stream \<longrightarrow>
         (\<exists>inp s. LzssReader_unpack (LzssReader_init input_stream input_length output_length) = Inr (inp, s)))"
proof -
  define s0 where "s0 = \<lparr>rd_output = replicate output_length (0::byte), rd_size = input_length,
           rd_frame_size = 0x1000, rd_frame_fill = 0,
           rd_frame_init_pos = 0xfee,
           rd_dst = 0,
           rd_frame = replicate 0x1000 (0::byte),
           rd_frame_pos = 0xfee,
           rd_remaining = input_length\<rparr>"
  define inp0 where "inp0 = take input_length input_stream"
  have u: "LzssReader_unpack (LzssReader_init input_stream input_length output_length) = rd_loop inp0 s0"
    by (simp add: LzssReader_unpack_def LzssReader_init_def s0_def inp0_def)
  have 1: "rd_loop inp0 s0 \<noteq> Inl (IndexError ''output'')"
    using rd_loop_Inl [of inp0 s0] by blast
  have 2: "length (rd_output s) = output_length \<and> rd_dst s \<le> output_length
             \<and> (\<forall>i. rd_dst s \<le> i \<and> i < output_length \<longrightarrow> rd_output s ! i = 0)"
    if "rd_loop inp0 s0 = Inr (inp, s)" for inp s
    using rd_loop_Inr [OF that] by (auto simp: s0_def)
  have 3: "\<exists>inp s. rd_loop inp0 s0 = Inr (inp, s)" if "input_length \<le> length input_stream"
  proof (cases "rd_loop inp0 s0")
    case (Inl e)
    from rd_loop_Inl [OF Inl] that show ?thesis by (simp add: s0_def inp0_def)
  next
    case (Inr x)
    then show ?thesis by (cases x) auto
  qed
  from 1 2 3 show ?thesis unfolding u by blast
qed

section \<open>The input-exhaustion decoder returns partial output\<close>

lemma co_emit_buffer: "co_buffer (co_emit b s) = co_buffer s @ [b]"
  by (simp add: co_emit_def Let_def)

lemma co_copy_buffer: "prefix (co_buffer s) (co_buffer (co_copy n offset s))"
proof (induction n offset s rule: co_copy.induct)
  case (1 offset s)
  show ?case by simp
next
  case (2 n offset s)
  have "prefix (co_buffer s) (co_buffer (co_emit (co_frame s ! (offset AND co_frame_mask s)) s))"
    by (simp add: co_emit_buffer)
  with "2.IH" show ?case by (auto intro: prefix_order.trans)
qed


lemma co_bits_grows: "prefix (co_buffer s) (co_buffer (snd (snd (co_bits bits ctl inp s))))"
proof (induction bits ctl inp s rule: co_bits.induct)
  case (1 ctl inp s)
  show ?case by simp
next
  case (2 bitno bits ctl inp s)
  show ?case
  proof (cases "ctl AND push_bit bitno 1 \<noteq> 0")
    case lit: True
    show ?thesis
    proof (cases inp)
      case Nil
      with lit show ?thesis by simp
    next
      case (Cons b rest)
      have "prefix (co_buffer s) (co_buffer (co_emit b s))" by (simp add: co_emit_buffer)
      with "2.IH"(1) [OF lit Cons] lit Cons show ?thesis
        by (auto intro: prefix_order.trans)
    qed
  next
    case mat: False
    show ?thesis
    proof (cases inp)
      case Nil
      with mat show ?thesis by simp
    next
      case (Cons lo rest)
      show ?thesis
      proof (cases rest)
        case Nil
        with mat Cons show ?thesis by simp
      next
        case rest: (Cons hi rest')
        from "2.IH"(2) [OF mat Cons rest] co_copy_buffer mat Cons rest show ?thesis
          by (auto intro: prefix_order.trans)
      qed
    qed
  qed
qed

lemma co_bits_returned:
  "co_bits bits ctl inp s = (True, inp', s') \<Longrightarrow> inp' = []"
proof (induction bits ctl inp s rule: co_bits.induct)
  case (1 ctl inp s)
  then show ?case by simp
next
  case (2 bitno bits ctl inp s)
  then show ?case
    by (auto split: if_splits list.splits)
qed

lemma co_bits_more_input:
  "co_bits bits ctl inp s = (False, inp', s') \<Longrightarrow>
   co_bits bits ctl (inp @ extra) s = (False, inp' @ extra, s')"
proof (induction bits ctl inp s rule: co_bits.induct)
  case (1 ctl inp s)
  then show ?case by simp
next
  case (2 bitno bits ctl inp s)
  then show ?case
    by (auto split: if_splits list.splits)
qed

lemma co_bits_partial:
  "co_bits bits ctl inp s = (True, inp', s') \<Longrightarrow>
   prefix (co_buffer s') (co_buffer (snd (snd (co_bits bits ctl (inp @ extra) s))))"
proof (induction bits ctl inp s rule: co_bits.induct)
  case (1 ctl inp s)
  then show ?case by simp
next
  case (2 bitno bits ctl inp s)
  show ?case
  proof (cases "ctl AND push_bit bitno 1 \<noteq> 0")
    case lit: True
    show ?thesis
    proof (cases inp)
      case Nil
      with "2.prems" lit have "s' = s" by simp
      then show ?thesis by (simp only: co_bits_grows)
    next
      case (Cons b rest)
      with "2.prems" lit have "co_bits bits ctl rest (co_emit b s) = (True, inp', s')" by simp
      from "2.IH"(1) [OF lit Cons this] lit Cons show ?thesis by simp
    qed
  next
    case mat: False
    show ?thesis
    proof (cases inp)
      case Nil
      with "2.prems" mat have "s' = s" by simp
      then show ?thesis by (simp only: co_bits_grows)
    next
      case (Cons lo rest)
      show ?thesis
      proof (cases rest)
        case Nil
        with "2.prems" mat Cons have "s' = s" by simp
        then show ?thesis by (simp only: co_bits_grows)
      next
        case rest: (Cons hi rest')
        with "2.prems" mat Cons
        have "co_bits bits ctl rest'
                (co_copy (3 + (unat hi AND 0xF)) (push_bit 4 (unat hi AND 0xf0) OR unat lo) s)
              = (True, inp', s')" by simp
        from "2.IH"(2) [OF mat Cons rest this] mat Cons rest show ?thesis by simp
      qed
    qed
  qed
qed


lemma co_loop_Nil: "co_loop [] s = ([], s)"
  by (simp add: co_loop.simps)

lemma co_loop_Cons:
  "co_loop (ctl # rest) s =
     (case co_bits [0..<8] (unat ctl) rest s of
        (True, inp', s') \<Rightarrow> (inp', s')
      | (False, inp', s') \<Rightarrow> co_loop inp' s')"
  by (simp add: co_loop.simps [of "ctl # rest"])

lemma co_loop_consumes: "fst (co_loop inp s) = []"
proof (induction inp s rule: co_loop.induct)
  case (1 inp s)
  show ?case
  proof (cases inp)
    case Nil
    then show ?thesis by (simp add: co_loop_Nil)
  next
    case (Cons ctl rest)
    obtain r inp1 s1 where b: "co_bits [0..<8] (unat ctl) rest s = (r, inp1, s1)"
      by (cases "co_bits [0..<8] (unat ctl) rest s") auto
    show ?thesis
    proof (cases r)
      case True
      with b have "inp1 = []" by (auto dest: co_bits_returned)
      with b True Cons show ?thesis by (simp add: co_loop_Cons)
    next
      case False
      have bF: "(False, inp1, s1) = co_bits [0..<8] (unat ctl) rest s" using b False by simp
      from "1.IH" [OF Cons bF refl refl] b False Cons show ?thesis
        by (simp add: co_loop_Cons)
    qed
  qed
qed

lemma co_loop_grows: "prefix (co_buffer s) (co_buffer (snd (co_loop inp s)))"
proof (induction inp s rule: co_loop.induct)
  case (1 inp s)
  show ?case
  proof (cases inp)
    case Nil
    then show ?thesis by (simp add: co_loop_Nil)
  next
    case (Cons ctl rest)
    obtain r inp1 s1 where b: "co_bits [0..<8] (unat ctl) rest s = (r, inp1, s1)"
      by (cases "co_bits [0..<8] (unat ctl) rest s") auto
    have g: "prefix (co_buffer s) (co_buffer s1)"
      using co_bits_grows [of s "[0..<8]" "unat ctl" rest] b by simp
    show ?thesis
    proof (cases r)
      case True
      with b g Cons show ?thesis by (simp add: co_loop_Cons)
    next
      case False
      have bF: "(False, inp1, s1) = co_bits [0..<8] (unat ctl) rest s" using b False by simp
      have "prefix (co_buffer s1) (co_buffer (snd (co_loop inp1 s1)))"
        by (rule "1.IH" [OF Cons bF refl refl])
      with g have "prefix (co_buffer s) (co_buffer (snd (co_loop inp1 s1)))"
        by (rule prefix_order.trans)
      with b False Cons show ?thesis by (simp add: co_loop_Cons)
    qed
  qed
qed

lemma co_loop_partial:
  "prefix (co_buffer (snd (co_loop inp s))) (co_buffer (snd (co_loop (inp @ extra) s)))"
proof (induction inp s rule: co_loop.induct)
  case (1 inp s)
  show ?case
  proof (cases inp)
    case Nil
    then show ?thesis using co_loop_grows [of s extra] by (simp add: co_loop_Nil)
  next
    case (Cons ctl rest)
    obtain r inp1 s1 where b: "co_bits [0..<8] (unat ctl) rest s = (r, inp1, s1)"
      by (cases "co_bits [0..<8] (unat ctl) rest s") auto
    have l: "co_loop (inp @ extra) s =
               (case co_bits [0..<8] (unat ctl) (rest @ extra) s of
                  (True, inp', s') \<Rightarrow> (inp', s')
                | (False, inp', s') \<Rightarrow> co_loop inp' s')"
      by (simp add: co_loop_Cons Cons)
    show ?thesis
    proof (cases r)
      case True
      with b Cons have fin: "co_loop inp s = (inp1, s1)" by (simp add: co_loop_Cons)
      obtain r2 inp2 s2 where b2: "co_bits [0..<8] (unat ctl) (rest @ extra) s = (r2, inp2, s2)"
        by (cases "co_bits [0..<8] (unat ctl) (rest @ extra) s") auto
      have p: "prefix (co_buffer s1) (co_buffer s2)"
        using co_bits_partial [of "[0..<8]" "unat ctl" rest s inp1 s1 extra] b True b2 by simp
      show ?thesis
      proof (cases r2)
        case True
        with l b2 p fin show ?thesis by simp
      next
        case False
        have "prefix (co_buffer s2) (co_buffer (snd (co_loop inp2 s2)))" by (rule co_loop_grows)
        with p have "prefix (co_buffer s1) (co_buffer (snd (co_loop inp2 s2)))"
          by (rule prefix_order.trans)
        with l b2 False fin show ?thesis by simp
      qed
    next
      case False
      have bF: "(False, inp1, s1) = co_bits [0..<8] (unat ctl) rest s" using b False by simp
      have ih: "prefix (co_buffer (snd (co_loop inp1 s1))) (co_buffer (snd (co_loop (inp1 @ extra) s1)))"
        by (rule "1.IH" [OF Cons bF refl refl])
      have "co_bits [0..<8] (unat ctl) (rest @ extra) s = (False, inp1 @ extra, s1)"
        using b False by (simp add: co_bits_more_input)
      with l have "co_loop (inp @ extra) s = co_loop (inp1 @ extra) s1" by simp
      moreover from b False Cons have "co_loop inp s = co_loop inp1 s1"
        by (simp add: co_loop_Cons)
      ultimately show ?thesis using ih by simp
    qed
  qed
qed

section \<open>Evaluating the decoders on concrete streams\<close>

lemma upt8: "[0..<8] = [0, 1, 2, 3, 4, 5, 6, 7 :: nat]"
  by (simp add: upt_rec)

lemma co_copy_unfold:
  "0 < n \<Longrightarrow> co_copy n offset s
     = co_copy (n - 1) (offset + 1) (co_emit (co_frame s ! (offset AND co_frame_mask s)) s)"
  by (cases n) simp_all

lemma rd_copy_unfold:
  "0 < n \<Longrightarrow> rd_copy n offset s =
     (if length (rd_output s) \<le> rd_dst s then Inr s
      else (case rd_put (rd_frame s ! offset) s of
              Inl e \<Rightarrow> Inl e
            | Inr s' \<Rightarrow> rd_copy (n - 1) ((offset + 1) AND rd_frame_mask s) s'))"
  by (cases n) (auto split: sum.splits)

lemma replicate_5: "replicate 5 x = [x, x, x, x, x]"
proof -
  have "(5::nat) = Suc (Suc (Suc (Suc (Suc 0))))" by simp
  then show ?thesis by (simp only: replicate.simps)
qed

lemma replicate_8: "replicate 8 x = [x, x, x, x, x, x, x, x]"
proof -
  have "(8::nat) = Suc (Suc (Suc (Suc (Suc (Suc (Suc (Suc 0)))))))" by simp
  then show ?thesis by (simp only: replicate.simps)
qed

lemma and_4095: "n < 4096 \<Longrightarrow> n AND 4095 = (n::nat)"
proof -
  assume "n < 4096"
  then have "take_bit 12 n = n" by (simp add: take_bit_nat_eq_self_iff)
  moreover have "(4095::nat) = mask 12" by (simp add: mask_eq_exp_minus_1)
  ultimately show ?thesis by (simp add: take_bit_eq_mask)
qed

lemmas rd_eval = LzssReader_unpack_def LzssReader_init_def upt8 rd_loop.simps
      rd_put_def rd_frame_mask_def Let_def rd_copy_unfold and_4095

lemmas co_eval = LzssCoroutine_unpack_def initialize_def LzssSettings_init_def upt8
      co_loop_Nil co_loop_Cons co_emit_def co_frame_mask_def Let_def co_copy_unfold and_4095






lemma rd_example:
  "\<exists>inp s. LzssReader_unpack (LzssReader_init [7, a, b, c, 0, 2] 6 8) = Inr (inp, s)
      \<and> rd_output s = [a, b, c, 0, 0, 0, 0, 0]"
  by (simp add: rd_eval replicate_8)








section \<open>Decrypting and parsing the index\<close>

lemma from_le_take4_bound: "from_le (take 4 bs) < 2 ^ 32"
proof -
  have "from_le (take 4 bs) < 256 ^ length (take 4 bs)" by (rule from_le_bound)
  also have "\<dots> \<le> 256 ^ 4" by (rule power_increasing) simp_all
  finally show ?thesis by simp
qed

lemma decrypt_stage_ok:
  assumes "length region = 4 * m" and "k < 2 ^ 32"
  shows "\<exists>r. decrypt_stage opcode k region = Inr r \<and> length r = length region"
proof -
  consider "opcode = 1" | "opcode = 2" | "opcode = 4" | "opcode = 8"
    | "opcode \<noteq> 1" "opcode \<noteq> 2" "opcode \<noteq> 4" "opcode \<noteq> 8" by blast
  then show ?thesis
  proof cases
    case 1
    then show ?thesis
      using stage_xor_region [OF assms] length_xor_words [OF assms(1)] assms(1) by simp
  next
    case 2
    then show ?thesis
      using stage_chain_region [OF assms] length_chain_words [OF assms(1)] assms(1) by simp
  next
    case 3
    then show ?thesis
      using stage_shift_region [OF assms(1)] length_shift_words [OF assms(1)] assms(1) by simp
  next
    case 4
    have "length (init_table region k) = length region"
      using init_table_spec [of region k] by blast
    with 4 show ?thesis by (simp add: decrypt_stage_def)
  next
    case 5
    then show ?thesis by (simp add: decrypt_stage_noop)
  qed
qed

lemma apply_stages_ok:
  "length region = 4 * m \<Longrightarrow>
   \<exists>r. apply_stages rounds routine region = Inr r \<and> length r = length region"
proof (induction rounds arbitrary: region)
  case Nil
  then show ?case by simp
next
  case (Cons i rounds)
  obtain r1 where r1: "decrypt_stage (routine ! i) (from_le (take 4 (drop (8 + 4 * i) routine))) region = Inr r1"
    and l1: "length r1 = length region"
    using decrypt_stage_ok [OF Cons.prems from_le_take4_bound] by blast
  from l1 Cons.prems have "length r1 = 4 * m" by simp
  from Cons.IH [OF this] obtain r where "apply_stages rounds routine r1 = Inr r" "length r = length r1"
    by blast
  with r1 l1 show ?case by simp
qed

lemma decrypt_whole:
  "length slot \<le> len \<Longrightarrow>
   decrypt slot 0 len routine
     = decrypt_rounds [7, 6, 5, 4, 3, 2, 1, 0] routine (int (length routine)) slot"
  by (simp add: decrypt_def Let_def split: sum.splits)

lemma decrypt_region:
  "decrypt buffer offset len routine =
     (case decrypt (take len (drop offset buffer)) 0 len routine of
        Inl e \<Rightarrow> Inl e
      | Inr r \<Rightarrow> Inr (take offset buffer @ r @ drop (offset + length (take len (drop offset buffer))) buffer))"
proof -
  have "length (take len (drop offset buffer)) \<le> len" by simp
  from decrypt_whole [OF this] show ?thesis
    by (simp add: decrypt_def Let_def del: length_take)
qed

lemma decrypt_slot_ok:
  assumes "length routine = 40" and "length slot = 4 * m"
  shows "\<exists>r. decrypt slot 0 (4 * m) routine = Inr r \<and> length r = length slot"
proof -
  have "decrypt_rounds (rev [0..<8]) routine (int (8 + 4 * 8)) slot = apply_stages (rev [0..<8]) routine slot"
    using assms(1) by (intro decrypt_rounds_stages) simp_all
  then have "decrypt_rounds [7, 6, 5, 4, 3, 2, 1, 0] routine (int (length routine)) slot
               = apply_stages [7, 6, 5, 4, 3, 2, 1, 0] routine slot"
    by (simp add: rev_upt_8 assms(1))
  moreover have "decrypt slot 0 (4 * m) routine
     = decrypt_rounds [7, 6, 5, 4, 3, 2, 1, 0] routine (int (length routine)) slot"
    using assms(2) by (intro decrypt_whole) simp
  ultimately have "decrypt slot 0 (4 * m) routine
      = apply_stages [7, 6, 5, 4, 3, 2, 1, 0] routine slot"
    by (simp only:)
  then show ?thesis
    using apply_stages_ok [OF assms(2), of "[7, 6, 5, 4, 3, 2, 1, 0]" routine] by (simp only:)
qed


lemma unpack_from_slot:
  assumes "length pre = cur" and "off + w \<le> length slot"
  shows "unpack_from w (pre @ slot @ post) (int (cur + off)) = unpack_from w slot (int off)"
proof -
  have "take w (drop (cur + off) (pre @ slot @ post)) = take w (drop off slot)"
    using assms by simp
  then show ?thesis
    unfolding unpack_from_nat using assms by simp
qed

lemma get_null_terminated_string_eq:
  "get_null_terminated_string data offset n
     = takeWhile (\<lambda>b. b \<noteq> 0) (take n (drop offset data))"
proof -
  define w where "w = take n (drop offset data)"
  define t where "t = takeWhile (\<lambda>b. b \<noteq> 0) w"
  have lt: "length t \<le> n" 
  proof -
    have "length t \<le> length w" unfolding t_def by (rule length_takeWhile_le)
    also have "\<dots> \<le> n" by (simp add: w_def)
    finally show ?thesis .
  qed
  have tk: "take (length t) (drop offset data) = t"
  proof -
    have "t = take (length t) w" unfolding t_def by (rule takeWhile_eq_take)
    also have "\<dots> = take (length t) (drop offset data)"
      using lt by (simp add: w_def min_def)
    finally show ?thesis by simp
  qed
  show ?thesis
  proof (cases "0 \<in> set w")
    case True
    have "nat (int offset + int (length t)) - offset = length t" by simp
    with True show ?thesis
      using tk by (simp add: get_null_terminated_string_def bytes_find0_def Let_def
          w_def [symmetric] t_def [symmetric])
  next
    case False
    then have "t = w" by (auto simp: t_def takeWhile_eq_all_conv)
    with False show ?thesis
      by (simp add: get_null_terminated_string_def bytes_find0_def Let_def
          w_def [symmetric] t_def [symmetric])
  qed
qed

lemma get_null_terminated_string_slot:
  assumes "length pre = cur" and "n \<le> length slot"
  shows "get_null_terminated_string (pre @ slot @ post) cur n = get_null_terminated_string slot 0 n"
  unfolding get_null_terminated_string_eq using assms by simp

lemma parse_entry_slot:
  assumes "length pre = cur" and "length slot = 96"
  shows "parse_entry (pre @ slot @ post) cur = parse_entry slot 0"
proof -
  have u: "unpack_from w (pre @ slot @ post) (int (cur + off)) = unpack_from w slot (int (0 + off))"
    if "off + w \<le> 96" for w off
    using unpack_from_slot [OF assms(1), of off w slot post] that assms(2) by simp
  have g: "get_null_terminated_string (pre @ slot @ post) cur 0x40 = get_null_terminated_string slot 0 0x40"
    using assms by (intro get_null_terminated_string_slot) simp_all
  show ?thesis
    unfolding parse_entry_def g by (simp only: u) 
qed

lemma parse_entry_ok:
  assumes "length slot = 96"
  shows "parse_entry slot 0 =
     Inr \<lparr>entry_name = takeWhile (\<lambda>b. b \<noteq> 0) (take 0x40 slot),
          entry_offset = from_le (take 4 (drop 0x54 slot)),
          entry_size = from_le (take 4 (drop 0x4C slot)),
          unpacked_size = from_le (take 4 (drop 0x50 slot)),
          lzss_frame_size = from_le (take 2 (drop 0x40 slot)),
          lzss_init_pos =
            (if from_le (take 2 (drop 0x40 slot)) \<noteq> 0
             then nat ((int (from_le (take 2 (drop 0x40 slot))) - int (from_le (take 2 (drop 0x42 slot))))
                        mod int (from_le (take 2 (drop 0x40 slot))))
             else from_le (take 2 (drop 0x42 slot))),
          sub_type = from_le (take 4 (drop 0x48 slot)),
          is_packed = (from_le (take 4 (drop 0x50 slot)) \<noteq> from_le (take 4 (drop 0x4C slot)))\<rparr>"
  unfolding parse_entry_def get_null_terminated_string_eq unpack_from_nat
  using assms by (simp add: then_do_def Let_def)


lemma parse_entries_spec:
  assumes "self_key self = Some k" and "length k = 40" and "cur + n * 96 \<le> length index_data"
  shows "\<exists>self'. parse_entries n index_data cur self = (None, self')
      \<and> self_key self' = Some k
      \<and> length (self_entries self') = length (self_entries self) + n
      \<and> (\<forall>j < length (self_entries self). self_entries self' ! j = self_entries self ! j)
      \<and> (\<forall>j<n. \<exists>slot. decrypt (take 96 (drop (cur + j * 96) index_data)) 0 96 k = Inr slot
               \<and> length slot = 96
               \<and> parse_entry slot 0 = Inr (self_entries self' ! (length (self_entries self) + j)))"
  using assms
proof (induction n arbitrary: index_data cur self)
  case 0
  then show ?case by simp
next
  case (Suc n)
  define raw where "raw = take 96 (drop cur index_data)"
  have lraw: "length raw = 4 * 24" using Suc.prems(3) by (simp add: raw_def)
  from decrypt_slot_ok [OF Suc.prems(2) lraw] obtain slot where
    slot: "decrypt raw 0 96 k = Inr slot" and lslot: "length slot = 96"
    using lraw by auto
  define d' where "d' = take cur index_data @ slot @ drop (cur + 96) index_data"
  have dec: "decrypt index_data cur 96 k = Inr d'"
    using slot lraw by (simp add: decrypt_region [of index_data cur 96 k] raw_def [symmetric] d'_def)
  have lpre: "length (take cur index_data) = cur" using Suc.prems(3) by simp
  obtain e where e: "parse_entry slot 0 = Inr e"
    using parse_entry_ok [OF lslot] by blast
  have pe: "parse_entry d' cur = Inr e"
    unfolding d'_def using parse_entry_slot [OF lpre lslot] e by simp
  define self1 where "self1 = self\<lparr>self_entries := self_entries self @ [e]\<rparr>"
  have step: "parse_entries (Suc n) index_data cur self = parse_entries n d' (cur + 96) self1"
    using Suc.prems(1) dec pe by (simp add: self1_def)
  have ld': "length d' = length index_data"
    using Suc.prems(3) lslot by (simp add: d'_def)
  have k1: "self_key self1 = Some k" using Suc.prems(1) by (simp add: self1_def)
  have b1: "cur + 96 + n * 96 \<le> length d'" using Suc.prems(3) ld' by simp
  from Suc.IH [OF k1 Suc.prems(2) b1] obtain self' where
    r: "parse_entries n d' (cur + 96) self1 = (None, self')"
    and rk: "self_key self' = Some k"
    and rl: "length (self_entries self') = length (self_entries self1) + n"
    and rp: "\<forall>j < length (self_entries self1). self_entries self' ! j = self_entries self1 ! j"
    and rs: "\<forall>j<n. \<exists>slot. decrypt (take 96 (drop (cur + 96 + j * 96) d')) 0 96 k = Inr slot
               \<and> length slot = 96
               \<and> parse_entry slot 0 = Inr (self_entries self' ! (length (self_entries self1) + j))"
    by blast
  have l1: "length (self_entries self1) = Suc (length (self_entries self))"
    by (simp add: self1_def)
  have dr: "drop (cur + 96 + x) d' = drop (cur + 96 + x) index_data" for x
    using lpre lslot by (simp add: d'_def add.commute)
  have 1: "length (self_entries self') = length (self_entries self) + Suc n"
    using rl l1 by simp
  have 2: "self_entries self' ! j = self_entries self ! j" if "j < length (self_entries self)" for j
  proof -
    from that have "j < length (self_entries self1)" using l1 by simp
    with rp have "self_entries self' ! j = self_entries self1 ! j" by blast
    with that show ?thesis by (simp add: self1_def nth_append)
  qed
  have e0: "self_entries self' ! length (self_entries self) = e"
  proof -
    have "length (self_entries self) < length (self_entries self1)" using l1 by simp
    with rp have "self_entries self' ! length (self_entries self)
                    = self_entries self1 ! length (self_entries self)" by blast
    then show ?thesis by (simp add: self1_def)
  qed
  have 3: "\<exists>slot. decrypt (take 96 (drop (cur + j * 96) index_data)) 0 96 k = Inr slot
               \<and> length slot = 96
               \<and> parse_entry slot 0 = Inr (self_entries self' ! (length (self_entries self) + j))"
    if "j < Suc n" for j
  proof (cases j)
    case 0
    with slot lslot e e0 show ?thesis by (auto simp: raw_def)
  next
    case (Suc i)
    with that have "i < n" by simp
    with rs obtain sl where "decrypt (take 96 (drop (cur + 96 + i * 96) d')) 0 96 k = Inr sl"
      "length sl = 96"
      "parse_entry sl 0 = Inr (self_entries self' ! (length (self_entries self1) + i))"
      by blast
    then show ?thesis unfolding dr l1 Suc by (auto simp: add.assoc add.commute)
  qed
  from r rk 1 2 3 show ?case unfolding step by blast
qed

lemma open_body_loop:
  assumes "well_formed f"
  shows "open_body self f =
     (case parse_entries (footer_count f) (take (footer_count f * 96) (drop (index_start f) f)) 0
             (self\<lparr>self_key := Some (key_material f)\<rparr>) of
        (Some e, self2) \<Rightarrow> (Inl e, self2)
      | (None, self2) \<Rightarrow> (Inr True, self2))"
proof -
  from assms have m1: "take 4 f = [0x52, 0x52, 0x45, 0x44]"
    and m2: "take 4 (drop 4 f) = [0x41, 0x54, 0x41, 0x20]"
    and c: "footer_count f \<le> 10000" and l: "44 + footer_count f * 96 \<le> length f"
    by (simp_all add: well_formed_def)
  have l4: "4 \<le> length f" using l by simp
  have cnt: "then_do (file_seek (int (length f) - 4)) (\<lambda>pos. then_do (file_read f pos 4) unpack_I)
               = Inr (footer_count f)"
  proof -
    have "nat (int (length f) - 4) = length f - 4" by simp
    moreover have "length (take 4 (drop (length f - 4) f)) = 4" using l4 by simp
    ultimately show ?thesis
      using l4 by (simp add: then_do_def file_seek_def file_read_def unpack_I_def footer_count_def)
  qed
  have io: "int (length f) - 4 - int (footer_count f * 96) = int (index_start f)"
    using l by (simp add: index_start_def)
  have i40: "40 \<le> index_start f" using l by (simp add: index_start_def)
  have ky: "then_do (file_seek (int (index_start f) - 40)) (\<lambda>pos. file_read f pos 40)
              = Inr (key_material f)"
  proof -
    have "nat (int (index_start f) - 40) = index_start f - 40" by simp
    then show ?thesis
      using i40 by (simp add: then_do_def file_seek_def file_read_def key_material_def)
  qed
  have ix: "then_do (file_seek (int (index_start f))) (\<lambda>pos. file_read f pos (int (footer_count f * 96)))
              = Inr (take (footer_count f * 96) (drop (index_start f) f))"
    by (simp add: then_do_def file_seek_def file_read_def nat_mult_distrib)
  have nc: "\<not> footer_count f > 10000" using c by simp
  show ?thesis
    unfolding open_body_def Let_def
    by (simp only: m1 m2 cnt io ky ix nc if_False if_True not_False_eq_True not_not sum.case
        refl simp_thms)
qed


lemma open_body_early:
  assumes "\<not> well_formed f"
  shows "snd (open_body self f) = self \<and> fst (open_body self f) \<noteq> Inr True"
proof (cases "take 4 f = [0x52, 0x52, 0x45, 0x44] \<and> take 4 (drop 4 f) = [0x41, 0x54, 0x41, 0x20]")
  case False
  then show ?thesis by (auto simp: open_body_def)
next
  case True
  then have m1: "take 4 f = [0x52, 0x52, 0x45, 0x44]"
    and m2: "take 4 (drop 4 f) = [0x41, 0x54, 0x41, 0x20]" by simp_all
  have "length (take 4 f) = 4" by (simp only: m1) simp
  then have l4: "4 \<le> length f" by simp
  have cnt: "then_do (file_seek (int (length f) - 4)) (\<lambda>pos. then_do (file_read f pos 4) unpack_I)
               = Inr (footer_count f)"
  proof -
    have "nat (int (length f) - 4) = length f - 4" by simp
    moreover have "length (take 4 (drop (length f - 4) f)) = 4" using l4 by simp
    ultimately show ?thesis
      using l4 by (simp add: then_do_def file_seek_def file_read_def unpack_I_def footer_count_def)
  qed
  show ?thesis
  proof (cases "footer_count f > 10000")
    case True
    show ?thesis
      unfolding open_body_def Let_def
      by (simp only: m1 m2 cnt True if_False if_True not_False_eq_True not_not sum.case
          refl simp_thms fst_conv snd_conv) simp
  next
    case False
    with assms m1 m2 have "length f < 44 + footer_count f * 96"
      by (simp add: well_formed_def)
    then have neg: "int (length f) - 4 - int (footer_count f * 96) - 40 < 0" by simp
    have ky: "then_do (file_seek (int (length f) - 4 - int (footer_count f * 96) - 40))
                (\<lambda>pos. file_read f pos 40) = Inl OSError"
      using neg by (simp only: file_seek_def then_do_def if_True sum.case)
    show ?thesis
      unfolding open_body_def Let_def
      by (simp only: m1 m2 cnt False ky if_False if_True not_False_eq_True not_not sum.case
          refl simp_thms fst_conv snd_conv) simp
  qed
qed

lemma open_body_parse_ok:
  assumes "well_formed f"
  shows "\<exists>self'. open_body self f = (Inr True, self')
      \<and> self_key self' = Some (key_material f)
      \<and> length (self_entries self') = length (self_entries self) + footer_count f
      \<and> (\<forall>j < length (self_entries self). self_entries self' ! j = self_entries self ! j)
      \<and> (\<forall>j < footer_count f. \<exists>slot. decrypt (raw_slot f j) 0 96 (key_material f) = Inr slot
               \<and> length slot = 96
               \<and> parse_entry slot 0 = Inr (self_entries self' ! (length (self_entries self) + j)))"
proof -
  from assms have l: "44 + footer_count f * 96 \<le> length f"
    by (simp add: well_formed_def)
  define self1 where "self1 = self\<lparr>self_key := Some (key_material f)\<rparr>"
  define index_data where "index_data = take (footer_count f * 96) (drop (index_start f) f)"
  have i40: "40 \<le> index_start f" using l by (simp add: index_start_def)
  have ie: "index_start f + footer_count f * 96 + 4 = length f" using l by (simp add: index_start_def)
  have k1: "self_key self1 = Some (key_material f)" by (simp add: self1_def)
  have lk: "length (key_material f) = 40" using i40 ie by (simp add: key_material_def)
  have li: "0 + footer_count f * 96 \<le> length index_data" using ie by (simp add: index_data_def)
  from parse_entries_spec [OF k1 lk li] obtain self' where
    r: "parse_entries (footer_count f) index_data 0 self1 = (None, self')"
    and rk: "self_key self' = Some (key_material f)"
    and rl: "length (self_entries self') = length (self_entries self1) + footer_count f"
    and rp: "\<forall>j < length (self_entries self1). self_entries self' ! j = self_entries self1 ! j"
    and rs: "\<forall>j<footer_count f. \<exists>slot. decrypt (take 96 (drop (0 + j * 96) index_data)) 0 96 (key_material f) = Inr slot
               \<and> length slot = 96
               \<and> parse_entry slot 0 = Inr (self_entries self' ! (length (self_entries self1) + j))"
    by blast
  have e1: "self_entries self1 = self_entries self" by (simp add: self1_def)
  have sl: "take 96 (drop (0 + j * 96) index_data) = raw_slot f j" if "j < footer_count f" for j
  proof -
    from that have "Suc j \<le> footer_count f" by simp
    then have "Suc j * 96 \<le> footer_count f * 96" by (rule mult_le_mono1)
    then have "j * 96 + 96 \<le> footer_count f * 96" by simp
    then show ?thesis
      by (simp add: index_data_def raw_slot_def take_drop min_def add.commute)
  qed
  have ob: "open_body self f = (Inr True, self')"
    using open_body_loop [OF assms, of self] r by (simp add: self1_def index_data_def)
  from ob rk rl rp rs sl show ?thesis unfolding e1 by auto
qed

lemma open_failed_unchanged:
  assumes "\<not> fst (EmeArchive_open self file)"
  shows "snd (EmeArchive_open self file) = self"
proof (cases "file")
  case None
  then show ?thesis by (simp add: EmeArchive_open_def)
next
  case (Some f)
  show ?thesis
  proof (cases "well_formed f")
    case True
    from open_body_parse_ok [OF True, of self] obtain self' where
      "open_body self f = (Inr True, self')" by blast
    with assms Some show ?thesis by (simp add: EmeArchive_open_def)
  next
    case False
    from open_body_early [OF False, of self]
    have "snd (open_body self f) = self" by blast
    then show ?thesis
      by (cases "open_body self f") (auto simp: EmeArchive_open_def Some split: sum.splits)
  qed
qed

lemma open_well_formed:
  "fst (EmeArchive_open self (Some f)) \<longleftrightarrow> well_formed f"
proof (cases "well_formed f")
  case True
  from open_body_parse_ok [OF True, of self] obtain self' where
    "open_body self f = (Inr True, self')" by blast
  with True show ?thesis by (simp add: EmeArchive_open_def)
next
  case False
  from open_body_early [OF False, of self]
  have "fst (open_body self f) \<noteq> Inr True" by blast
  with False show ?thesis
    by (cases "open_body self f") (auto simp: EmeArchive_open_def split: sum.splits)
qed

section \<open>The example container\<close>

lemma apply_stages_noop:
  "\<forall>i \<in> set rounds. routine ! i \<notin> {1, 2, 4, 8} \<Longrightarrow> apply_stages rounds routine region = Inr region"
  by (induction rounds arbitrary: region) (simp_all add: decrypt_stage_noop)

lemma decrypt_zero_key:
  assumes "length slot \<le> len"
  shows "decrypt slot 0 len (replicate 40 0) = Inr slot"
proof -
  define routine :: "byte list" where "routine = replicate 40 0"
  have lr: "length routine = 40" by (simp add: routine_def)
  have "decrypt_rounds (rev [0..<8]) routine (int (8 + 4 * 8)) slot = apply_stages (rev [0..<8]) routine slot"
    using lr by (intro decrypt_rounds_stages) simp_all
  then have "decrypt_rounds [7, 6, 5, 4, 3, 2, 1, 0] routine (int (length routine)) slot
               = apply_stages [7, 6, 5, 4, 3, 2, 1, 0] routine slot"
    by (simp add: rev_upt_8 lr)
  moreover have "apply_stages [7, 6, 5, 4, 3, 2, 1, 0] routine slot = Inr slot"
    by (rule apply_stages_noop) (simp add: routine_def)
  moreover have "decrypt slot 0 len routine
     = decrypt_rounds [7, 6, 5, 4, 3, 2, 1, 0] routine (int (length routine)) slot"
    using assms by (rule decrypt_whole)
  ultimately show ?thesis by (simp only: routine_def)
qed

lemma length_example_slot: "length example_slot = 96"
  by (simp add: example_slot_def)

lemma length_example_container: "length example_container = 148"
  by (simp add: example_container_def length_example_slot)

lemma example_footer: "footer_count example_container = 1"
  by (simp add: footer_count_def example_container_def length_example_slot)

lemma example_index_start: "index_start example_container = 48"
  by (simp add: index_start_def example_footer length_example_container)

lemma example_key: "key_material example_container = replicate 40 0"
  by (simp only: key_material_def example_index_start) (simp add: example_container_def)

lemma example_raw_slot: "raw_slot example_container 0 = example_slot"
  by (simp only: raw_slot_def example_index_start)
     (simp add: example_container_def length_example_slot)

lemma example_well_formed: "well_formed example_container"
  by (simp add: well_formed_def example_footer length_example_container)
     (simp add: example_container_def)

lemma example_fields:
  "from_le (take 2 (drop 0x40 example_slot)) = 0x1000"
  "from_le (take 2 (drop 0x42 example_slot)) = 0x12"
  "from_le (take 4 (drop 0x4C example_slot)) = 5"
  "from_le (take 4 (drop 0x50 example_slot)) = 9"
  by (simp_all add: example_slot_def)

lemma unpack_from_0:
  "unpack_from w buf 0 = (if w \<le> length buf then Inr (from_le (take w buf)) else Inl StructError)"
  using unpack_from_nat [of w buf 0] by simp

lemma unpack_from_4:
  "unpack_from w buf 4 =
     (if 4 + w \<le> length buf then Inr (from_le (take w (drop 4 buf))) else Inl StructError)"
  using unpack_from_nat [of w buf 4] by simp

lemmas script_eval = extract_script_def then_do_def file_read_def example_archive_def
  script_entry_def decrypt_zero_key unpack_from_0 unpack_from_4 Let_def

lemma script_example_split:
  "extract_script Inr example_archive
     ([10, 0, 0, 0, 10, 0, 0, 0, 0, 0, 0, 0] @ replicate 10 1 @ replicate 20 2) (script_entry 30 30)
   = Inr (replicate 20 2 @ replicate 10 1)"
  by (simp add: script_eval)

lemma script_example_single:
  "extract_script Inr example_archive
     ([10, 0, 0, 0, 0, 0, 0, 0, 0, 0, 0, 0] @ replicate 10 1 @ replicate 20 2) (script_entry 30 30)
   = Inr (replicate 10 1 @ replicate 20 2)"
  by (simp add: script_eval)

lemma script_example_long:
  "extract_script pad_decompress example_archive
     ([10, 0, 0, 0, 10, 0, 0, 0, 0, 0, 0, 0] @ replicate 29 7) (script_entry 29 30)
   = Inr (take 20 (0 # replicate 19 7) @ 0 # replicate 10 7)"
  by (simp add: script_eval pad_decompress_def)

lemma decrypt_apply_stages:
  assumes "length key = 40"
  shows "decrypt buffer offset len key =
           (case apply_stages [7, 6, 5, 4, 3, 2, 1, 0] key (take len (drop offset buffer)) of
              Inl e \<Rightarrow> Inl e
            | Inr region \<Rightarrow>
                Inr (take offset buffer @ region
                       @ drop (offset + length (take len (drop offset buffer))) buffer))"
proof -
  have "decrypt_rounds (rev [0..<8]) key (int (8 + 4 * 8)) d = apply_stages (rev [0..<8]) key d" for d
    using assms by (intro decrypt_rounds_stages) simp_all
  then have "decrypt_rounds [7, 6, 5, 4, 3, 2, 1, 0] key (int (length key)) d
               = apply_stages [7, 6, 5, 4, 3, 2, 1, 0] key d" for d
    by (simp add: rev_upt_8 assms)
  then show ?thesis
    by (simp add: decrypt_def Let_def)
qed

lemma apply_stages_chain:
  assumes "length region = 4 * m"
  shows "\<exists>r7 r6 r5 r4 r3 r2 r1 r0.
            decrypt_stage (key ! 7) (from_le (take 4 (drop 36 key))) region = Inr r7
          \<and> decrypt_stage (key ! 6) (from_le (take 4 (drop 32 key))) r7 = Inr r6
          \<and> decrypt_stage (key ! 5) (from_le (take 4 (drop 28 key))) r6 = Inr r5
          \<and> decrypt_stage (key ! 4) (from_le (take 4 (drop 24 key))) r5 = Inr r4
          \<and> decrypt_stage (key ! 3) (from_le (take 4 (drop 20 key))) r4 = Inr r3
          \<and> decrypt_stage (key ! 2) (from_le (take 4 (drop 16 key))) r3 = Inr r2
          \<and> decrypt_stage (key ! 1) (from_le (take 4 (drop 12 key))) r2 = Inr r1
          \<and> decrypt_stage (key ! 0) (from_le (take 4 (drop 8 key))) r1 = Inr r0
          \<and> apply_stages [7, 6, 5, 4, 3, 2, 1, 0] key region = Inr r0
          \<and> length r0 = length region"
proof -
  have step: "\<exists>r'. decrypt_stage opcode (from_le (take 4 bs)) r = Inr r' \<and> length r' = 4 * m"
    if "length r = 4 * m" for opcode bs r
    using decrypt_stage_ok [OF that from_le_take4_bound, of opcode bs] that by simp
  from step [OF assms] obtain r7 where
    7: "decrypt_stage (key ! 7) (from_le (take 4 (drop 36 key))) region = Inr r7"
    and l7: "length r7 = 4 * m" by blast
  from step [OF l7] obtain r6 where
    6: "decrypt_stage (key ! 6) (from_le (take 4 (drop 32 key))) r7 = Inr r6"
    and l6: "length r6 = 4 * m" by blast
  from step [OF l6] obtain r5 where
    5: "decrypt_stage (key ! 5) (from_le (take 4 (drop 28 key))) r6 = Inr r5"
    and l5: "length r5 = 4 * m" by blast
  from step [OF l5] obtain r4 where
    4: "decrypt_stage (key ! 4) (from_le (take 4 (drop 24 key))) r5 = Inr r4"
    and l4: "length r4 = 4 * m" by blast
  from step [OF l4] obtain r3 where
    3: "decrypt_stage (key ! 3) (from_le (take 4 (drop 20 key))) r4 = Inr r3"
    and l3: "length r3 = 4 * m" by blast
  from step [OF l3] obtain r2 where
    2: "decrypt_stage (key ! 2) (from_le (take 4 (drop 16 key))) r3 = Inr r2"
    and l2: "length r2 = 4 * m" by blast
  from step [OF l2] obtain r1 where
    1: "decrypt_stage (key ! 1) (from_le (take 4 (drop 12 key))) r2 = Inr r1"
    and l1: "length r1 = 4 * m" by blast
  from step [OF l1] obtain r0 where
    0: "decrypt_stage (key ! 0) (from_le (take 4 (drop 8 key))) r1 = Inr r0"
    and l0: "length r0 = 4 * m" by blast
  have a: "apply_stages [7, 6, 5, 4, 3, 2, 1, 0] key region = Inr r0"
    using 7 6 5 4 3 2 1 0 by simp
  have l: "length r0 = length region" using l0 assms by simp
  from 7 6 5 4 3 2 1 0 a l show ?thesis by blast
qed

lemma sample_key_length: "length sample_key = 40"
  by (simp add: sample_key_def)

lemma sample_round7: "decrypt_stage 1 16 [1, 2, 3, 4, 5, 6, 7, 8] = Inr [17, 2, 3, 4, 21, 6, 7, 8]"
proof -
  have "length [1, 2, 3, 4, 5, 6, 7, 8 :: byte] = 4 * 2" by simp
  from stage_xor_region [OF this, of 16] show ?thesis by (simp add: to_le4)
qed

lemma sample_round6: "decrypt_stage 2 5 [17, 2, 3, 4, 21, 6, 7, 8] = Inr [20, 2, 3, 4, 4, 4, 4, 12]"
proof -
  have "length [17, 2, 3, 4, 21, 6, 7, 8 :: byte] = 4 * 2" by simp
  from stage_chain_region [OF this, of 5] show ?thesis by (simp add: to_le4)
qed

lemma upt32: "[0..<32] = [0, 1, 2, 3, 4, 5, 6, 7, 8, 9, 10, 11, 12, 13, 14, 15, 16, 17, 18, 19, 20,
    21, 22, 23, 24, 25, 26, 27, 28, 29, 30, 31 :: nat]"
  by (simp add: upt_rec)

lemma sample_round3: "decrypt_stage 4 1 [20, 2, 3, 4, 4, 4, 4, 12] = Inr [40, 4, 6, 8, 8, 8, 8, 24]"
proof -
  have "length [20, 2, 3, 4, 4, 4, 4, 12 :: byte] = 4 * 2" by simp
  from stage_shift_region [OF this, of 1] show ?thesis by (simp add: to_le4 shift_value_def upt32)
qed

lemma sample_round2: "decrypt_stage 8 3 [40, 4, 6, 8, 8, 8, 8, 24] = Inr [24, 6, 8, 40, 8, 8, 4, 8]"
  by (simp add: decrypt_stage_def init_table_def upt_rec replicate_8)

lemma pack_into_0:
  "pack_into buf 0 v =
     (if 4 \<le> length buf \<and> v < 2 ^ 32 then Inr (to_le 4 v @ drop 4 buf) else Inl StructError)"
  using pack_into_nat [of buf 0 v] by simp

lemma partial_word_raises: "decrypt_stage 1 16 [1, 2, 3, 4, 5] = Inl StructError"
  by (simp add: decrypt_stage_def range4_def upt_rec unpack_from_0 unpack_from_4 pack_into_0 to_le4)


section \<open>The import of \<open>decompress\<close>\<close>

text \<open>
  Claim C1. Running \<open>EXEME.py\<close> fails for every command line, every file system and every
  output sink with the \<open>ImportError\<close> of its line 8, before \<open>main\<close> is called and so before any
  container is opened: \<open>lzss.py\<close> binds neither \<open>decompress\<close> nor \<open>LZSSError\<close>.
\<close>

theorem import_fails:
  "EXEME_script decompress sink argv fs = Inl ImportError
   \<and> ''decompress'' \<notin> set lzss_module \<and> ''LZSSError'' \<notin> set lzss_module"
  by (simp add: EXEME_script_def import_from_def lzss_module_def then_do_def)

section \<open>Split script records\<close>

text \<open>
  Claim C2, as amended. For every script record whose \<open>lzss_frame_size\<close> is not 0 and whose
  12-byte header decrypts to \<open>header\<close>: with \<open>header_raw_size\<close> the u32 at header offset 4 (not
  the first four bytes) and \<open>header_packed_size\<close> the u32 at header offset 0, if
  \<open>0 < header_raw_size < unpacked_size\<close> and \<open>header_packed_size \<le> size\<close>, and \<open>decompress\<close> returns
  \<open>segment2\<close> for the \<open>size - header_packed_size\<close> stored bytes after the first
  \<open>header_packed_size\<close> stored bytes following the header and \<open>segment1\<close> for those first
  \<open>header_packed_size\<close> stored bytes, then the bytes written are the first
  \<open>unpacked_size - header_raw_size\<close> bytes of \<open>segment2\<close> followed by all of \<open>segment1\<close>; with
  \<open>header_raw_size = 10\<close>, \<open>unpacked_size = 30\<close>, \<open>segment2\<close> of at least 20 bytes and \<open>segment1\<close> of
  exactly 10 bytes, that is 30 bytes.
\<close>

theorem split_script:
  assumes "self_key self = Some k"
    and "decrypt (take 12 (drop (entry_offset entry) f)) 0 12 k = Inr header"
    and "lzss_frame_size entry \<noteq> 0"
    and "unpack_from 4 header 4 = Inr header_raw_size"
    and "unpack_from 4 header 0 = Inr header_packed_size"
    and "0 < header_raw_size" and "header_raw_size < unpacked_size entry"
    and "header_packed_size \<le> entry_size entry"
    and "decompress (take (entry_size entry - header_packed_size)
                      (drop (entry_offset entry + 12 + header_packed_size) f)) = Inr segment2"
    and "decompress (take header_packed_size (drop (entry_offset entry + 12) f)) = Inr segment1"
  shows "extract_script decompress self f entry
           = Inr (take (unpacked_size entry - header_raw_size) segment2 @ segment1)
     \<and> (header_raw_size = 10 \<and> unpacked_size entry = 30 \<and> 20 \<le> length segment2
          \<and> length segment1 = 10 \<longrightarrow>
        length (take (unpacked_size entry - header_raw_size) segment2 @ segment1) = 30)"
proof -
  have r0: "file_read f (entry_offset entry) 12 = Inr (take 12 (drop (entry_offset entry) f))"
    by (simp add: file_read_def)
  have r1: "file_read f (entry_offset entry + 12 + header_packed_size)
              (int (entry_size entry) - int header_packed_size)
            = Inr (take (entry_size entry - header_packed_size)
                      (drop (entry_offset entry + 12 + header_packed_size) f))"
    using assms(8) by (simp add: file_read_def nat_diff_distrib)
  have r2: "file_read f (entry_offset entry + 12) (int header_packed_size)
            = Inr (take header_packed_size (drop (entry_offset entry + 12) f))"
    by (simp add: file_read_def)
  have c: "header_raw_size \<noteq> 0 \<and> header_raw_size < unpacked_size entry"
    using assms(6,7) by simp
  have "extract_script decompress self f entry
           = Inr (take (unpacked_size entry - header_raw_size) segment2 @ segment1)"
    unfolding extract_script_def
    by (simp add: then_do_def r0 assms(1,2,3,4,5,9,10) c r1 r2 Let_def del: of_nat_diff)
  then show ?thesis by auto
qed


theorem split_script_witness:
  "self_key example_archive = Some (replicate 40 0)
   \<and> decrypt (take 12 (drop (entry_offset (script_entry 30 30))
         ([10, 0, 0, 0, 10, 0, 0, 0, 0, 0, 0, 0] @ replicate 10 1 @ replicate 20 2))) 0 12 (replicate 40 0)
       = Inr [10, 0, 0, 0, 10, 0, 0, 0, 0, 0, 0, 0]
   \<and> lzss_frame_size (script_entry 30 30) \<noteq> 0
   \<and> unpack_from 4 [10, 0, 0, 0, 10, 0, 0, 0, 0, 0, 0, 0] 4 = Inr 10
   \<and> unpack_from 4 [10, 0, 0, 0, 10, 0, 0, 0, 0, 0, 0, 0] 0 = Inr 10
   \<and> (0::nat) < 10 \<and> 10 < unpacked_size (script_entry 30 30)
   \<and> 10 \<le> entry_size (script_entry 30 30)
   \<and> extract_script Inr example_archive
         ([10, 0, 0, 0, 10, 0, 0, 0, 0, 0, 0, 0] @ replicate 10 1 @ replicate 20 2) (script_entry 30 30)
       = Inr (take (unpacked_size (script_entry 30 30) - 10) (replicate 20 2) @ replicate 10 1)
   \<and> length (take (unpacked_size (script_entry 30 30) - 10) (replicate 20 (2::byte)) @ replicate 10 (1::byte))
       = 30"
proof -
  define f :: "byte list" where
    "f = [10, 0, 0, 0, 10, 0, 0, 0, 0, 0, 0, 0] @ replicate 10 1 @ replicate 20 2"
  define h :: "byte list" where "h = [10, 0, 0, 0, 10, 0, 0, 0, 0, 0, 0, 0]"
  have h1: "self_key example_archive = Some (replicate 40 0)"
    by (simp add: example_archive_def)
  have h2: "decrypt (take 12 (drop (entry_offset (script_entry 30 30)) f)) 0 12 (replicate 40 0) = Inr h"
    by (simp add: f_def h_def script_entry_def decrypt_zero_key)
  have h3: "lzss_frame_size (script_entry 30 30) \<noteq> 0" by (simp add: script_entry_def)
  have h4: "unpack_from 4 h 4 = Inr 10" by (simp add: h_def unpack_from_4)
  have h5: "unpack_from 4 h 0 = Inr 10" by (simp add: h_def unpack_from_0)
  have h6: "(0::nat) < 10" by simp
  have h7: "10 < unpacked_size (script_entry 30 30)" by (simp add: script_entry_def)
  have h8: "10 \<le> entry_size (script_entry 30 30)" by (simp add: script_entry_def)
  have h9: "Inr (take (entry_size (script_entry 30 30) - 10)
                      (drop (entry_offset (script_entry 30 30) + 12 + 10) f))
              = (Inr (replicate 20 2) :: error + byte list)"
    by (simp add: f_def script_entry_def)
  have h10: "Inr (take 10 (drop (entry_offset (script_entry 30 30) + 12) f))
              = (Inr (replicate 10 1) :: error + byte list)"
    by (simp add: f_def script_entry_def)
  note t = split_script [of example_archive "replicate 40 0" "script_entry 30 30" f h 10 10 Inr
      "replicate 20 2" "replicate 10 1", OF h1 h2 h3 h4 h5 h6 h7 h8 h9 h10]
  have c1: "extract_script Inr example_archive f (script_entry 30 30)
       = Inr (take (unpacked_size (script_entry 30 30) - 10) (replicate 20 2) @ replicate 10 1)"
    using t by (rule conjunct1)
  have c2: "length (take (unpacked_size (script_entry 30 30) - 10) (replicate 20 (2::byte)) @ replicate 10 (1::byte)) = 30"
    using t [THEN conjunct2] by (simp add: script_entry_def)
  from h1 h2 h3 h4 h5 h6 h7 h8 c1 c2 show ?thesis
    unfolding f_def h_def by (intro conjI)
qed

theorem split_script_counterexample:
  "from_le (take 4 [10, 0, 0, 0, 0, 0, 0, 0, 0, 0, 0, 0 :: byte]) = 10
   \<and> (0::nat) < 10 \<and> 10 < unpacked_size (script_entry 30 30)
   \<and> extract_script Inr example_archive
         ([10, 0, 0, 0, 0, 0, 0, 0, 0, 0, 0, 0] @ replicate 10 1 @ replicate 20 2) (script_entry 30 30)
       = Inr (replicate 10 1 @ replicate 20 2)
   \<and> replicate 10 1 @ replicate 20 2
       \<noteq> take (30 - 10) (replicate 20 2) @ replicate 10 (1::byte)
   \<and> extract_script pad_decompress example_archive
         ([10, 0, 0, 0, 10, 0, 0, 0, 0, 0, 0, 0] @ replicate 29 7) (script_entry 29 30)
       = Inr (take (30 - 10) (0 # replicate 19 7) @ 0 # replicate 10 7)
   \<and> 20 \<le> length (0 # replicate 19 (7::byte)) \<and> 10 \<le> length (0 # replicate 10 (7::byte))
   \<and> length (take (30 - 10) (0 # replicate 19 7) @ 0 # replicate 10 (7::byte)) \<noteq> 30
   \<and> extract_script Inr example_archive
         ([10, 0, 0, 0, 10, 0, 0, 0, 0, 0, 0, 0] @ replicate 5 1) (script_entry 5 30)
       = Inl ValueError"
proof -
  have 6: "extract_script Inr example_archive
         ([10, 0, 0, 0, 10, 0, 0, 0, 0, 0, 0, 0] @ replicate 5 1) (script_entry 5 30)
       = Inl ValueError"
    by (simp add: script_eval)
  have 1: "from_le (take 4 [10, 0, 0, 0, 0, 0, 0, 0, 0, 0, 0, 0 :: byte]) = 10" by simp
  have 2: "10 < unpacked_size (script_entry 30 30)" by (simp add: script_entry_def)
  have a: "hd (replicate 10 1 @ replicate 20 (2::byte)) = 1" by (simp add: hd_append)
  have b: "hd (take (30 - 10) (replicate 20 2) @ replicate 10 (1::byte)) = 2"
    by (simp add: hd_append)
  have 3: "replicate 10 1 @ replicate 20 2
       \<noteq> take (30 - 10) (replicate 20 2) @ replicate 10 (1::byte)"
  proof
    assume "replicate 10 1 @ replicate 20 2
       = take (30 - 10) (replicate 20 2) @ replicate 10 (1::byte)"
    then have "hd (replicate 10 1 @ replicate 20 (2::byte))
       = hd (take (30 - 10) (replicate 20 2) @ replicate 10 (1::byte))"
      by (rule arg_cong)
    then have "(1::byte) = 2" by (simp only: a b)
    then show False by simp
  qed
  have 4: "extract_script pad_decompress example_archive
         ([10, 0, 0, 0, 10, 0, 0, 0, 0, 0, 0, 0] @ replicate 29 7) (script_entry 29 30)
       = Inr (take (30 - 10) (0 # replicate 19 7) @ 0 # replicate 10 7)"
    using script_example_long by simp
  have 5: "length (take (30 - 10) (0 # replicate 19 7) @ 0 # replicate 10 (7::byte)) \<noteq> 30"
    by simp
  from 1 2 script_example_single 3 4 5 6 show ?thesis by simp
qed
section \<open>The eight rounds of the stage cipher\<close>

text \<open>
  Claim C3, as amended. For every 40-byte key material and every buffer region whose length
  is a multiple of 4, \<open>decrypt\<close> runs the eight rounds \<open>i = 7, 6, \<dots>, 0\<close> in this order, none of
  them raising, each on the region the round before it left; round \<open>i\<close> takes its stage
  key from \<open>key[8 + 4*i .. 8 + 4*i + 4)\<close> and its opcode from \<open>key[i]\<close>; the region keeps its
  length and the buffer outside the region is unchanged; and a round whose opcode is not
  1, 2, 4 or 8 returns the region unchanged and raises nothing, whatever the length of the
  region. On a region of 5 bytes a round with opcode 1 raises \<open>struct.error\<close> at the partial
  word, and the rounds after it do not run.
\<close>

theorem stage_cipher_rounds:
  assumes "length key = 40" and "length (take len (drop offset buffer)) mod 4 = 0"
  shows "(\<exists>r7 r6 r5 r4 r3 r2 r1 r0.
            decrypt_stage (key ! 7) (from_le (take 4 (drop 36 key))) (take len (drop offset buffer)) = Inr r7
          \<and> decrypt_stage (key ! 6) (from_le (take 4 (drop 32 key))) r7 = Inr r6
          \<and> decrypt_stage (key ! 5) (from_le (take 4 (drop 28 key))) r6 = Inr r5
          \<and> decrypt_stage (key ! 4) (from_le (take 4 (drop 24 key))) r5 = Inr r4
          \<and> decrypt_stage (key ! 3) (from_le (take 4 (drop 20 key))) r4 = Inr r3
          \<and> decrypt_stage (key ! 2) (from_le (take 4 (drop 16 key))) r3 = Inr r2
          \<and> decrypt_stage (key ! 1) (from_le (take 4 (drop 12 key))) r2 = Inr r1
          \<and> decrypt_stage (key ! 0) (from_le (take 4 (drop 8 key))) r1 = Inr r0
          \<and> decrypt buffer offset len key =
              Inr (take offset buffer @ r0
                     @ drop (offset + length (take len (drop offset buffer))) buffer)
          \<and> length r0 = length (take len (drop offset buffer)))
         \<and> (\<forall>opcode k region. opcode \<notin> {1, 2, 4, 8} \<longrightarrow>
                decrypt_stage opcode k region = Inr region)"
proof -
  define region where "region = take len (drop offset buffer)"
  from assms(2) have "4 dvd length region"
    unfolding region_def by (simp only: mod_eq_0_iff_dvd)
  then obtain m where m: "length region = 4 * m"
    by (auto elim: dvdE)
  from apply_stages_chain [OF m, of key] obtain r7 r6 r5 r4 r3 r2 r1 r0 where
    c: "decrypt_stage (key ! 7) (from_le (take 4 (drop 36 key))) region = Inr r7"
       "decrypt_stage (key ! 6) (from_le (take 4 (drop 32 key))) r7 = Inr r6"
       "decrypt_stage (key ! 5) (from_le (take 4 (drop 28 key))) r6 = Inr r5"
       "decrypt_stage (key ! 4) (from_le (take 4 (drop 24 key))) r5 = Inr r4"
       "decrypt_stage (key ! 3) (from_le (take 4 (drop 20 key))) r4 = Inr r3"
       "decrypt_stage (key ! 2) (from_le (take 4 (drop 16 key))) r3 = Inr r2"
       "decrypt_stage (key ! 1) (from_le (take 4 (drop 12 key))) r2 = Inr r1"
       "decrypt_stage (key ! 0) (from_le (take 4 (drop 8 key))) r1 = Inr r0"
    and a: "apply_stages [7, 6, 5, 4, 3, 2, 1, 0] key region = Inr r0"
    and l: "length r0 = length region"
    by blast
  have d: "decrypt buffer offset len key =
             Inr (take offset buffer @ r0 @ drop (offset + length region) buffer)"
    unfolding region_def
    by (simp only: decrypt_apply_stages [OF assms(1)] a [unfolded region_def] sum.case)
  have 1: "\<exists>r7 r6 r5 r4 r3 r2 r1 r0.
            decrypt_stage (key ! 7) (from_le (take 4 (drop 36 key))) region = Inr r7
          \<and> decrypt_stage (key ! 6) (from_le (take 4 (drop 32 key))) r7 = Inr r6
          \<and> decrypt_stage (key ! 5) (from_le (take 4 (drop 28 key))) r6 = Inr r5
          \<and> decrypt_stage (key ! 4) (from_le (take 4 (drop 24 key))) r5 = Inr r4
          \<and> decrypt_stage (key ! 3) (from_le (take 4 (drop 20 key))) r4 = Inr r3
          \<and> decrypt_stage (key ! 2) (from_le (take 4 (drop 16 key))) r3 = Inr r2
          \<and> decrypt_stage (key ! 1) (from_le (take 4 (drop 12 key))) r2 = Inr r1
          \<and> decrypt_stage (key ! 0) (from_le (take 4 (drop 8 key))) r1 = Inr r0
          \<and> decrypt buffer offset len key =
              Inr (take offset buffer @ r0 @ drop (offset + length region) buffer)
          \<and> length r0 = length region"
    using c d l by blast
  have 2: "\<forall>opcode k region. opcode \<notin> {1, 2, 4, 8} \<longrightarrow>
                decrypt_stage opcode k region = Inr region"
    by (simp add: decrypt_stage_noop)
  from 1 [unfolded region_def] 2 show ?thesis by (rule conjI)
qed

theorem stage_cipher_rounds_witness:
  "length sample_key = 40
   \<and> length (take 8 (drop 1 [0xAA, 1, 2, 3, 4, 5, 6, 7, 8, 0xBB :: byte])) mod 4 = 0
   \<and> decrypt_stage (sample_key ! 7) (from_le (take 4 (drop 36 sample_key)))
        (take 8 (drop 1 [0xAA, 1, 2, 3, 4, 5, 6, 7, 8, 0xBB])) = Inr [17, 2, 3, 4, 21, 6, 7, 8]
   \<and> decrypt_stage (sample_key ! 6) (from_le (take 4 (drop 32 sample_key)))
        [17, 2, 3, 4, 21, 6, 7, 8] = Inr [20, 2, 3, 4, 4, 4, 4, 12]
   \<and> decrypt_stage (sample_key ! 5) (from_le (take 4 (drop 28 sample_key)))
        [20, 2, 3, 4, 4, 4, 4, 12] = Inr [20, 2, 3, 4, 4, 4, 4, 12]
   \<and> decrypt_stage (sample_key ! 4) (from_le (take 4 (drop 24 sample_key)))
        [20, 2, 3, 4, 4, 4, 4, 12] = Inr [20, 2, 3, 4, 4, 4, 4, 12]
   \<and> decrypt_stage (sample_key ! 3) (from_le (take 4 (drop 20 sample_key)))
        [20, 2, 3, 4, 4, 4, 4, 12] = Inr [40, 4, 6, 8, 8, 8, 8, 24]
   \<and> decrypt_stage (sample_key ! 2) (from_le (take 4 (drop 16 sample_key)))
        [40, 4, 6, 8, 8, 8, 8, 24] = Inr [24, 6, 8, 40, 8, 8, 4, 8]
   \<and> decrypt_stage (sample_key ! 1) (from_le (take 4 (drop 12 sample_key)))
        [24, 6, 8, 40, 8, 8, 4, 8] = Inr [24, 6, 8, 40, 8, 8, 4, 8]
   \<and> decrypt_stage (sample_key ! 0) (from_le (take 4 (drop 8 sample_key)))
        [24, 6, 8, 40, 8, 8, 4, 8] = Inr [24, 6, 8, 40, 8, 8, 4, 8]
   \<and> decrypt [0xAA, 1, 2, 3, 4, 5, 6, 7, 8, 0xBB] 1 8 sample_key
        = Inr [0xAA, 24, 6, 8, 40, 8, 8, 4, 8, 0xBB]
   \<and> (3 :: byte) \<notin> {1, 2, 4, 8} \<and> decrypt_stage 3 7 [1, 2, 3] = Inr [1, 2, 3]"
proof -
  define B :: "byte list" where "B = [0xAA, 1, 2, 3, 4, 5, 6, 7, 8, 0xBB]"
  have h1: "length sample_key = 40" by (rule sample_key_length)
  have h2: "length (take 8 (drop 1 B)) mod 4 = 0" by (simp add: B_def)
  have reg: "take 8 (drop 1 B) = [1, 2, 3, 4, 5, 6, 7, 8]" by (simp add: B_def)
  note t = stage_cipher_rounds [where key = sample_key and buffer = B and offset = 1 and len = 8,
      OF h1 h2]
  from t [THEN conjunct1] obtain r7 r6 r5 r4 r3 r2 r1 r0 where
    c7: "decrypt_stage (sample_key ! 7) (from_le (take 4 (drop 36 sample_key))) (take 8 (drop 1 B)) = Inr r7"
    and c6: "decrypt_stage (sample_key ! 6) (from_le (take 4 (drop 32 sample_key))) r7 = Inr r6"
    and c5: "decrypt_stage (sample_key ! 5) (from_le (take 4 (drop 28 sample_key))) r6 = Inr r5"
    and c4: "decrypt_stage (sample_key ! 4) (from_le (take 4 (drop 24 sample_key))) r5 = Inr r4"
    and c3: "decrypt_stage (sample_key ! 3) (from_le (take 4 (drop 20 sample_key))) r4 = Inr r3"
    and c2: "decrypt_stage (sample_key ! 2) (from_le (take 4 (drop 16 sample_key))) r3 = Inr r2"
    and c1: "decrypt_stage (sample_key ! 1) (from_le (take 4 (drop 12 sample_key))) r2 = Inr r1"
    and c0: "decrypt_stage (sample_key ! 0) (from_le (take 4 (drop 8 sample_key))) r1 = Inr r0"
    and d: "decrypt B 1 8 sample_key
              = Inr (take 1 B @ r0 @ drop (1 + length (take 8 (drop 1 B))) B)"
    by blast
  have k7: "sample_key ! 7 = 1" "from_le (take 4 (drop 36 sample_key)) = 16"
    and k6: "sample_key ! 6 = 2" "from_le (take 4 (drop 32 sample_key)) = 5"
    and k5: "sample_key ! 5 = 0"
    and k4: "sample_key ! 4 = 0"
    and k3: "sample_key ! 3 = 4" "from_le (take 4 (drop 20 sample_key)) = 1"
    and k2: "sample_key ! 2 = 8" "from_le (take 4 (drop 16 sample_key)) = 3"
    and k1: "sample_key ! 1 = 0"
    and k0: "sample_key ! 0 = 3"
    by (simp_all add: sample_key_def)
  have e7: "r7 = [17, 2, 3, 4, 21, 6, 7, 8]"
    using c7 by (simp only: k7 reg sample_round7 sum.inject)
  have e6: "r6 = [20, 2, 3, 4, 4, 4, 4, 12]"
    using c6 by (simp only: k6 e7 sample_round6 sum.inject)
  have e5: "r5 = [20, 2, 3, 4, 4, 4, 4, 12]"
    using c5 by (simp add: k5 e6 decrypt_stage_noop)
  have e4: "r4 = [20, 2, 3, 4, 4, 4, 4, 12]"
    using c4 by (simp add: k4 e5 decrypt_stage_noop)
  have e3: "r3 = [40, 4, 6, 8, 8, 8, 8, 24]"
    using c3 by (simp only: k3 e4 sample_round3 sum.inject)
  have e2: "r2 = [24, 6, 8, 40, 8, 8, 4, 8]"
    using c2 by (simp only: k2 e3 sample_round2 sum.inject)
  have e1: "r1 = [24, 6, 8, 40, 8, 8, 4, 8]"
    using c1 k1 by (simp add: e2 decrypt_stage_noop)
  have e0: "r0 = [24, 6, 8, 40, 8, 8, 4, 8]"
    using c0 k0 by (simp add: e1 decrypt_stage_noop)
  have dd: "decrypt B 1 8 sample_key = Inr [0xAA, 24, 6, 8, 40, 8, 8, 4, 8, 0xBB]"
    using d by (simp add: e0 B_def)
  have n1: "(3 :: byte) \<notin> {1, 2, 4, 8}" by simp
  have n2: "decrypt_stage 3 7 [1, 2, 3] = Inr [1, 2, 3]"
    using t [THEN conjunct2] n1 by blast
  from h1 h2 c7 [unfolded e7] c6 [unfolded e7 e6] c5 [unfolded e6 e5] c4 [unfolded e5 e4]
    c3 [unfolded e4 e3] c2 [unfolded e3 e2] c1 [unfolded e2 e1] c0 [unfolded e1 e0] dd n1 n2
  show ?thesis unfolding B_def by (intro conjI)
qed

theorem stage_cipher_rounds_counterexample:
  "length sample_key = 40
   \<and> sample_key ! 7 = 1
   \<and> decrypt_stage (sample_key ! 7) (from_le (take 4 (drop 36 sample_key))) [1, 2, 3, 4, 5]
       = Inl StructError
   \<and> decrypt [1, 2, 3, 4, 5] 0 5 sample_key = Inl StructError"
proof -
  have k7: "sample_key ! 7 = 1" "from_le (take 4 (drop 36 sample_key)) = 16"
    by (simp_all add: sample_key_def)
  have 1: "decrypt_stage (sample_key ! 7) (from_le (take 4 (drop 36 sample_key))) [1, 2, 3, 4, 5]
       = Inl StructError"
    by (simp only: k7 partial_word_raises)
  have 2: "decrypt [1, 2, 3, 4, 5] 0 5 sample_key = Inl StructError"
    by (simp add: decrypt_apply_stages [OF sample_key_length] k7 partial_word_raises)
  from sample_key_length k7(1) 1 2 show ?thesis by (intro conjI)
qed


section \<open>A failed open leaves no catalog\<close>

text \<open>
  Claim C4. Whenever \<open>open\<close> returns \<open>False\<close> (the file cannot be opened, a magic mismatch, an
  entry count over 10000, or an exception), an archive as \<open>__init__\<close> built it has no entries
  afterwards; more generally a failed \<open>open\<close> leaves the archive as it was. No failure occurs
  partway through the index: once the magic, the entry count and the file length have passed
  their checks, decrypting and parsing every slot succeeds and \<open>open\<close> returns \<open>True\<close>.
\<close>

theorem failed_open_no_catalog:
  "(\<not> fst (EmeArchive_open EmeArchive_init file) \<longrightarrow>
      self_entries (snd (EmeArchive_open EmeArchive_init file)) = [])
   \<and> (\<not> fst (EmeArchive_open self file) \<longrightarrow> snd (EmeArchive_open self file) = self)
   \<and> (well_formed f \<longrightarrow> fst (EmeArchive_open self (Some f)))"
proof (intro conjI impI)
  assume "\<not> fst (EmeArchive_open EmeArchive_init file)"
  then have "snd (EmeArchive_open EmeArchive_init file) = EmeArchive_init"
    by (rule open_failed_unchanged)
  then show "self_entries (snd (EmeArchive_open EmeArchive_init file)) = []"
    by (simp add: EmeArchive_init_def)
next
  assume "\<not> fst (EmeArchive_open self file)"
  then show "snd (EmeArchive_open self file) = self" by (rule open_failed_unchanged)
next
  assume "well_formed f"
  then show "fst (EmeArchive_open self (Some f))" by (simp add: open_well_formed)
qed

theorem failed_open_no_catalog_witness:
  "\<not> fst (EmeArchive_open EmeArchive_init (Some [1, 2, 3]))
   \<and> self_entries (snd (EmeArchive_open EmeArchive_init (Some [1, 2, 3]))) = []
   \<and> snd (EmeArchive_open EmeArchive_init (Some [1, 2, 3])) = EmeArchive_init
   \<and> \<not> fst (EmeArchive_open EmeArchive_init None)
   \<and> self_entries (snd (EmeArchive_open EmeArchive_init None)) = []
   \<and> well_formed example_container
   \<and> fst (EmeArchive_open EmeArchive_init (Some example_container))"
proof -
  note a = failed_open_no_catalog [of "Some [1, 2, 3]" EmeArchive_init example_container]
  note b = failed_open_no_catalog [of None EmeArchive_init example_container]
  have "\<not> well_formed [1, 2, 3]" by (simp add: well_formed_def)
  then have h1: "\<not> fst (EmeArchive_open EmeArchive_init (Some [1, 2, 3]))"
    by (simp only: open_well_formed not_False_eq_True)
  have h2: "\<not> fst (EmeArchive_open EmeArchive_init None)"
    by (simp add: EmeArchive_open_def)
  note h3 = example_well_formed
  from a h1 have 1: "self_entries (snd (EmeArchive_open EmeArchive_init (Some [1, 2, 3]))) = []"
    by blast
  from a h1 have 2: "snd (EmeArchive_open EmeArchive_init (Some [1, 2, 3])) = EmeArchive_init"
    by blast
  from b h2 have 3: "self_entries (snd (EmeArchive_open EmeArchive_init None)) = []"
    by blast
  from a h3 have 4: "fst (EmeArchive_open EmeArchive_init (Some example_container))"
    by blast
  from h1 1 2 h2 3 h3 4 show ?thesis by (intro conjI)
qed

section \<open>Opcodes 4 and 8: redistribution without a bijectivity guard\<close>

text \<open>
  Claim C5. For every stage key: bit \<open>n\<close> of \<open>shift_value v key\<close> is set exactly when some
  source bit \<open>b < 32\<close> of \<open>v\<close> is set with \<open>((b + 1) * key) mod 32 = n\<close> (an OR-accumulation);
  when \<open>gcd key 32 \<noteq> 1\<close> the source bits \<open>b\<close> and \<open>b + 16\<close> share one destination, and the two
  single-bit words have the same image, so the map loses information; the opcode-4 stage
  applies \<open>shift_value\<close> to every word of a region of whole words. The opcode-8 stage is
  \<open>init_table\<close> on the whole region of length \<open>L\<close>: it keeps the length, source byte \<open>i\<close> goes
  to index \<open>((i + 1) * key) mod L\<close>, the last source byte written to an index is the one found
  there, an index never written holds 0, and when \<open>gcd key L \<noteq> 1\<close> two source indices
  share a destination. Neither operation checks for such collisions.
\<close>

theorem lossy_stages:
  "(\<forall>n. bit (shift_value v key) n \<longleftrightarrow> (\<exists>b<32. bit v b \<and> ((b + 1) * key) mod 32 = n))
   \<and> (gcd key 32 \<noteq> 1 \<longrightarrow>
        (\<forall>b<16. ((b + 17) * key) mod 32 = ((b + 1) * key) mod 32
                 \<and> shift_value (2 ^ b) key = shift_value (2 ^ (b + 16)) key))
   \<and> (length region mod 4 = 0 \<longrightarrow>
        (\<exists>r. decrypt_stage 4 key region = Inr r \<and> length r = length region \<and>
             (\<forall>j. 4 * j < length region \<longrightarrow> word_at r j = shift_value (word_at region j) key)))
   \<and> decrypt_stage 8 key region = Inr (init_table region key)
   \<and> length (init_table region key) = length region
   \<and> (\<forall>i. i < length region \<and>
            (\<forall>i'. i < i' \<and> i' < length region \<longrightarrow>
               table_dest key (length region) i' \<noteq> table_dest key (length region) i) \<longrightarrow>
          init_table region key ! table_dest key (length region) i = region ! i)
   \<and> (\<forall>j. j < length region \<and>
            (\<forall>i. i < length region \<longrightarrow> table_dest key (length region) i \<noteq> j) \<longrightarrow>
          init_table region key ! j = 0)
   \<and> (0 < length region \<and> gcd key (length region) \<noteq> 1 \<longrightarrow>
        (\<exists>i i'. i < i' \<and> i' < length region \<and>
           table_dest key (length region) i = table_dest key (length region) i'))"
proof (intro conjI)
  show "\<forall>n. bit (shift_value v key) n \<longleftrightarrow> (\<exists>b<32. bit v b \<and> ((b + 1) * key) mod 32 = n)"
    by (simp only: shift_value_bit) simp
  show "gcd key 32 \<noteq> 1 \<longrightarrow>
        (\<forall>b<16. ((b + 17) * key) mod 32 = ((b + 1) * key) mod 32
                 \<and> shift_value (2 ^ b) key = shift_value (2 ^ (b + 16)) key)"
    using gcd_32_even [of key] shift_dest_merge [of key] shift_value_merge [of key] by blast
  show "length region mod 4 = 0 \<longrightarrow>
        (\<exists>r. decrypt_stage 4 key region = Inr r \<and> length r = length region \<and>
             (\<forall>j. 4 * j < length region \<longrightarrow> word_at r j = shift_value (word_at region j) key))"
  proof
    assume "length region mod 4 = 0"
    then obtain k where k: "length region = 4 * k"
      by (auto elim: dvdE simp: mod_eq_0_iff_dvd)
    have 1: "decrypt_stage 4 key region = Inr (shift_words key region)"
      using k by (rule stage_shift_region)
    have 2: "length (shift_words key region) = length region"
      using length_shift_words [OF k] k by simp
    have 3: "word_at (shift_words key region) j = shift_value (word_at region j) key"
      if "4 * j < length region" for j
    proof -
      from that k have "j < k" by simp
      with k show ?thesis by (rule shift_words_word_at)
    qed
    from 1 2 3 show "\<exists>r. decrypt_stage 4 key region = Inr r \<and> length r = length region \<and>
             (\<forall>j. 4 * j < length region \<longrightarrow> word_at r j = shift_value (word_at region j) key)"
      by blast
  qed
  show "decrypt_stage 8 key region = Inr (init_table region key)"
    by (simp add: decrypt_stage_def)
  show "length (init_table region key) = length region"
    using init_table_spec [of region key] by blast
  show "\<forall>i. i < length region \<and>
            (\<forall>i'. i < i' \<and> i' < length region \<longrightarrow>
               table_dest key (length region) i' \<noteq> table_dest key (length region) i) \<longrightarrow>
          init_table region key ! table_dest key (length region) i = region ! i"
    using init_table_spec [of region key] by blast
  show "\<forall>j. j < length region \<and>
            (\<forall>i. i < length region \<longrightarrow> table_dest key (length region) i \<noteq> j) \<longrightarrow>
          init_table region key ! j = 0"
    using init_table_spec [of region key] by blast
  show "0 < length region \<and> gcd key (length region) \<noteq> 1 \<longrightarrow>
        (\<exists>i i'. i < i' \<and> i' < length region \<and>
           table_dest key (length region) i = table_dest key (length region) i')"
    using table_dest_collision [of "length region" key] by blast
qed


theorem lossy_stages_witness:
  "gcd (2::nat) 32 \<noteq> 1 \<and> (0::nat) < 16 \<and> shift_value (2 ^ 0) 2 = shift_value (2 ^ (0 + 16)) 2
   \<and> length [1, 2, 3, 4 :: byte] mod 4 = 0
   \<and> (\<exists>r. decrypt_stage 4 2 [1, 2, 3, 4] = Inr r \<and> word_at r 0 = shift_value (word_at [1, 2, 3, 4] 0) 2)
   \<and> init_table [1, 2, 3, 4] 2 ! table_dest 2 4 2 = 3
   \<and> init_table [1, 2, 3, 4] 2 ! 1 = 0
   \<and> 0 < length [1, 2, 3, 4 :: byte] \<and> gcd 2 (length [1, 2, 3, 4 :: byte]) \<noteq> 1
   \<and> (\<exists>i i'. i < i' \<and> i' < 4 \<and> table_dest 2 4 i = table_dest 2 4 i')"
proof -
  note t = lossy_stages [of 1 2 "[1, 2, 3, 4]"]
  note t2 = t [THEN conjunct2, THEN conjunct1]
  note t3 = t [THEN conjunct2, THEN conjunct2, THEN conjunct1]
  note t6 = t [THEN conjunct2, THEN conjunct2, THEN conjunct2, THEN conjunct2, THEN conjunct2,
               THEN conjunct1]
  note t7 = t [THEN conjunct2, THEN conjunct2, THEN conjunct2, THEN conjunct2, THEN conjunct2,
               THEN conjunct2, THEN conjunct1]
  note t8 = t [THEN conjunct2, THEN conjunct2, THEN conjunct2, THEN conjunct2, THEN conjunct2,
               THEN conjunct2, THEN conjunct2]
  have len: "length [1, 2, 3, 4 :: byte] = 4" by simp
  have g32: "gcd (2::nat) 32 \<noteq> 1"
    using gcd_nat.absorb1 [of 2 32] by simp
  have g4: "gcd (2::nat) 4 \<noteq> 1"
    using gcd_nat.absorb1 [of 2 4] by simp
  have d: "table_dest 2 4 i = (if i = 0 \<or> i = 2 then 2 else 0)" if "i < 4" for i
  proof -
    from that have "i = 0 \<or> i = 1 \<or> i = 2 \<or> i = 3" by auto
    then show ?thesis by (auto simp: table_dest_def)
  qed
  have "\<forall>b<16. ((b + 17) * 2) mod 32 = ((b + 1) * 2) mod (32::nat)
                 \<and> shift_value (2 ^ b) 2 = shift_value (2 ^ (b + 16)) 2"
    using t2 g32 by (rule mp)
  moreover have "(0::nat) < 16" by simp
  ultimately have 1: "shift_value (2 ^ 0) 2 = shift_value (2 ^ (0 + 16)) 2"
    by blast
  have "\<exists>r. decrypt_stage 4 2 [1, 2, 3, 4] = Inr r \<and> length r = length [1, 2, 3, 4 :: byte] \<and>
             (\<forall>j. 4 * j < length [1, 2, 3, 4 :: byte] \<longrightarrow>
                word_at r j = shift_value (word_at [1, 2, 3, 4] j) 2)"
    using t3 by (rule mp) simp
  then obtain r where r: "decrypt_stage 4 2 [1, 2, 3, 4] = Inr r"
    and rw: "\<forall>j. 4 * j < length [1, 2, 3, 4 :: byte] \<longrightarrow>
                word_at r j = shift_value (word_at [1, 2, 3, 4] j) 2" by blast
  have "4 * 0 < length [1, 2, 3, 4 :: byte]" by simp
  with rw have "word_at r 0 = shift_value (word_at [1, 2, 3, 4] 0) 2" by blast
  with r have 2: "\<exists>r. decrypt_stage 4 2 [1, 2, 3, 4] = Inr r
         \<and> word_at r 0 = shift_value (word_at [1, 2, 3, 4] 0) 2" by blast
  have "\<forall>i'. 2 < i' \<and> i' < 4 \<longrightarrow> table_dest 2 4 i' \<noteq> table_dest 2 4 2"
    using d by auto
  then have "init_table [1, 2, 3, 4] 2 ! table_dest 2 4 2 = [1, 2, 3, 4] ! 2"
    using t6 [unfolded len, THEN spec, of 2] by simp
  then have 3: "init_table [1, 2, 3, 4] 2 ! table_dest 2 4 2 = 3" by simp
  have "\<forall>i. i < 4 \<longrightarrow> table_dest 2 4 i \<noteq> 1"
    using d by auto
  then have 4: "init_table [1, 2, 3, 4] 2 ! 1 = 0"
    using t7 [unfolded len, THEN spec, of 1] by simp
  have 5: "\<exists>i i'. i < i' \<and> i' < 4 \<and> table_dest 2 4 i = table_dest 2 4 i'"
    using t8 [unfolded len] g4 by simp
  from g32 g4 1 2 3 4 5 show ?thesis by (simp only: len) simp
qed

section \<open>Opcode 2: the ciphertext-chained XOR\<close>

text \<open>
  Claim C6. For every region whose length is a multiple of 4 and every 32-bit stage key, the
  opcode-2 stage succeeds and keeps the length, and word \<open>j\<close> of its result is word \<open>j\<close> of
  the region XOR the running key: the stage key for the first word, and for every later
  word the previous word as it was before the stage (its still-encrypted value).
\<close>

theorem opcode2_chained_xor:
  assumes "length region mod 4 = 0" and "key < 2 ^ 32"
  shows "\<exists>r. decrypt_stage 2 key region = Inr r \<and> length r = length region \<and>
           (\<forall>j. 4 * j < length region \<longrightarrow>
              word_at r j = word_at region j XOR (if j = 0 then key else word_at region (j - 1)))"
proof -
  from assms(1) obtain k where k: "length region = 4 * k"
    by (auto elim: dvdE simp: mod_eq_0_iff_dvd)
  have 1: "decrypt_stage 2 key region = Inr (chain_words key region)"
    using k assms(2) by (rule stage_chain_region)
  have 2: "length (chain_words key region) = length region"
    using length_chain_words [OF k] k by simp
  have 3: "word_at (chain_words key region) j
             = word_at region j XOR (if j = 0 then key else word_at region (j - 1))"
    if "4 * j < length region" for j
  proof -
    from that k have "j < k" by simp
    with k assms(2) show ?thesis by (rule chain_words_word_at)
  qed
  from 1 2 3 show ?thesis by blast
qed

theorem opcode2_chained_xor_witness:
  "length [1, 0, 0, 0, 6, 0, 0, 0 :: byte] mod 4 = 0 \<and> (3 :: nat) < 2 ^ 32 \<and>
   (\<exists>r. decrypt_stage 2 3 [1, 0, 0, 0, 6, 0, 0, 0] = Inr r \<and>
        length r = length [1, 0, 0, 0, 6, 0, 0, 0 :: byte] \<and>
        (\<forall>j. 4 * j < length [1, 0, 0, 0, 6, 0, 0, 0 :: byte] \<longrightarrow>
           word_at r j = word_at [1, 0, 0, 0, 6, 0, 0, 0] j
              XOR (if j = 0 then 3 else word_at [1, 0, 0, 0, 6, 0, 0, 0] (j - 1))))"
  using opcode2_chained_xor [of "[1, 0, 0, 0, 6, 0, 0, 0]" 3] by simp

section \<open>The sliding-window decoding step\<close>




section \<open>Where the two decoders stop\<close>

text \<open>
  Claim C8. For every input stream, input length and output length, \<open>LzssReader.unpack\<close> never
  raises the \<open>IndexError\<close> of a write outside \<open>self.output\<close>; when it returns, the buffer still
  has \<open>output_length\<close> bytes, the number \<open>dst\<close> of bytes produced is at most \<open>output_length\<close>, and
  the bytes from \<open>dst\<close> on are the zeros the buffer started with; and it does return when the
  stream holds the \<open>input_length\<close> bytes it was told to read. \<open>LzssCoroutine.unpack\<close> always
  ends, having consumed the whole input, and what it produced from an input is a prefix of
  what it produces from any continuation of that input: running out of input, before a
  control byte or inside a sequence, loses nothing of the output produced so far.
\<close>

theorem decoders_stop:
  "LzssReader_unpack (LzssReader_init input_stream input_length output_length)
      \<noteq> Inl (IndexError ''output'')
   \<and> (\<forall>inp s. LzssReader_unpack (LzssReader_init input_stream input_length output_length) = Inr (inp, s)
         \<longrightarrow> length (rd_output s) = output_length \<and> rd_dst s \<le> output_length
             \<and> (\<forall>i. rd_dst s \<le> i \<and> i < output_length \<longrightarrow> rd_output s ! i = 0))
   \<and> (input_length \<le> length input_stream \<longrightarrow>
         (\<exists>inp s. LzssReader_unpack (LzssReader_init input_stream input_length output_length) = Inr (inp, s)))
   \<and> fst (LzssCoroutine_unpack input_stream initialize) = []
   \<and> prefix (co_buffer (snd (LzssCoroutine_unpack input_stream initialize)))
             (co_buffer (snd (LzssCoroutine_unpack (input_stream @ extra) initialize)))"
  using reader_bounded [of input_stream input_length output_length]
  by (simp add: LzssCoroutine_unpack_def co_loop_consumes co_loop_partial)

theorem decoders_stop_witness:
  "(\<exists>s. LzssReader_unpack (LzssReader_init [7, 1, 2, 3, 0, 2, 9, 9] 8 5) = Inr ([9, 9], s)
        \<and> rd_output s = [1, 2, 3, 0, 0] \<and> length (rd_output s) = 5 \<and> rd_dst s \<le> 5)
   \<and> 6 \<le> length [7, 1, 2, 3, 0, 2 :: byte]
   \<and> (\<exists>inp s. LzssReader_unpack (LzssReader_init [7, 1, 2, 3, 0, 2] 6 10) = Inr (inp, s)
        \<and> rd_dst s = 8 \<and> rd_dst s \<le> 9 \<and> (9::nat) < 10 \<and> rd_output s ! 9 = 0)
   \<and> co_buffer (snd (LzssCoroutine_unpack [7, 1, 2, 3, 0] initialize)) = [1, 2, 3]
   \<and> co_buffer (snd (LzssCoroutine_unpack ([7, 1, 2, 3, 0] @ [2]) initialize)) = [1, 2, 3, 0, 0, 0, 0, 0]
   \<and> prefix (co_buffer (snd (LzssCoroutine_unpack [7, 1, 2, 3, 0] initialize)))
         (co_buffer (snd (LzssCoroutine_unpack ([7, 1, 2, 3, 0] @ [2]) initialize)))"
proof -
  note a = decoders_stop [of "[7, 1, 2, 3, 0, 2, 9, 9]" 8 5 "[]"]
  note b = decoders_stop [of "[7, 1, 2, 3, 0, 2]" 6 10 "[]"]
  note c = decoders_stop [of "[7, 1, 2, 3, 0]" 0 0 "[2]"]
  have ea: "\<exists>s. LzssReader_unpack (LzssReader_init [7, 1, 2, 3, 0, 2, 9, 9] 8 5) = Inr ([9, 9], s)
        \<and> rd_output s = [1, 2, 3, 0, 0]"
    by (simp add: rd_eval replicate_5)
  then obtain sa where sa: "LzssReader_unpack (LzssReader_init [7, 1, 2, 3, 0, 2, 9, 9] 8 5) = Inr ([9, 9], sa)"
    and oa: "rd_output sa = [1, 2, 3, 0, 0]" by blast
  from a [THEN conjunct2, THEN conjunct1] sa
  have pa: "length (rd_output sa) = 5 \<and> rd_dst sa \<le> 5" by blast
  have h: "6 \<le> length [7, 1, 2, 3, 0, 2 :: byte]" by simp
  have eb: "\<exists>inp s. LzssReader_unpack (LzssReader_init [7, 1, 2, 3, 0, 2] 6 10) = Inr (inp, s)
        \<and> rd_dst s = 8"
    by (simp add: rd_eval)
  then obtain ib sb where sb: "LzssReader_unpack (LzssReader_init [7, 1, 2, 3, 0, 2] 6 10) = Inr (ib, sb)"
    and db: "rd_dst sb = 8" by blast
  from b [THEN conjunct2, THEN conjunct1] sb
  have "\<forall>i. rd_dst sb \<le> i \<and> i < 10 \<longrightarrow> rd_output sb ! i = 0" by blast
  with db have zb: "rd_output sb ! 9 = 0" by simp
  have c1: "co_buffer (snd (LzssCoroutine_unpack [7, 1, 2, 3, 0] initialize)) = [1, 2, 3]"
    by (simp add: co_eval)
  have c2: "co_buffer (snd (LzssCoroutine_unpack ([7, 1, 2, 3, 0] @ [2]) initialize))
              = [1, 2, 3, 0, 0, 0, 0, 0]"
    by (simp add: co_eval)
  note c3 = c [THEN conjunct2, THEN conjunct2, THEN conjunct2, THEN conjunct2]
  from sa oa pa h sb db zb c1 c2 c3 show ?thesis by (intro conjI exI [of _ sa] exI [of _ sb] exI [of _ ib]) simp_all
qed

section \<open>Derived fields of the entries\<close>

text \<open>
  Claim C9. After a successful \<open>open\<close>, the archive has one new entry for each of the index
  slots counted in the footer, in order, and for the entry of slot \<open>j\<close>, with \<open>slot\<close> the decrypted
  bytes of that slot: \<open>lzss_frame_size\<close> is the u16 at slot offset \<open>0x40\<close>; when it is not 0,
  \<open>lzss_init_pos\<close> is \<open>(lzss_frame_size - raw) mod lzss_frame_size\<close> for the u16 \<open>raw\<close> at slot
  offset \<open>0x42\<close>; \<open>size\<close> and \<open>unpacked_size\<close> are the u32 at \<open>0x4C\<close> and \<open>0x50\<close>; and \<open>is_packed\<close> is
  \<open>unpacked_size != size\<close>.
\<close>

theorem entry_invariants:
  assumes "EmeArchive_open self file = (True, self')"
  shows "\<exists>f. file = Some f
     \<and> length (self_entries self') = length (self_entries self) + footer_count f
     \<and> (\<forall>j < footer_count f.
          \<exists>slot. decrypt (raw_slot f j) 0 0x60 (key_material f) = Inr slot \<and>
            lzss_frame_size (self_entries self' ! (length (self_entries self) + j))
               = from_le (take 2 (drop 0x40 slot)) \<and>
            (lzss_frame_size (self_entries self' ! (length (self_entries self) + j)) \<noteq> 0 \<longrightarrow>
               int (lzss_init_pos (self_entries self' ! (length (self_entries self) + j)))
                 = (int (lzss_frame_size (self_entries self' ! (length (self_entries self) + j)))
                      - int (from_le (take 2 (drop 0x42 slot))))
                   mod int (lzss_frame_size (self_entries self' ! (length (self_entries self) + j)))) \<and>
            entry_size (self_entries self' ! (length (self_entries self) + j))
               = from_le (take 4 (drop 0x4C slot)) \<and>
            unpacked_size (self_entries self' ! (length (self_entries self) + j))
               = from_le (take 4 (drop 0x50 slot)) \<and>
            is_packed (self_entries self' ! (length (self_entries self) + j))
               = (unpacked_size (self_entries self' ! (length (self_entries self) + j))
                    \<noteq> entry_size (self_entries self' ! (length (self_entries self) + j))))"
proof -
  from assms obtain f where f: "file = Some f"
    by (cases "file") (auto simp: EmeArchive_open_def)
  from assms f have "fst (EmeArchive_open self (Some f))" by simp
  then have wf: "well_formed f" by (simp only: open_well_formed)
  from open_body_parse_ok [OF wf, of self] obtain s2 where
    ob: "open_body self f = (Inr True, s2)"
    and rl: "length (self_entries s2) = length (self_entries self) + footer_count f"
    and rs: "\<forall>j < footer_count f. \<exists>slot. decrypt (raw_slot f j) 0 96 (key_material f) = Inr slot
               \<and> length slot = 96
               \<and> parse_entry slot 0 = Inr (self_entries s2 ! (length (self_entries self) + j))"
    by blast
  from ob assms f have s2: "s2 = self'" by (simp add: EmeArchive_open_def)
  have "\<exists>slot. decrypt (raw_slot f j) 0 0x60 (key_material f) = Inr slot \<and>
            lzss_frame_size (self_entries self' ! (length (self_entries self) + j))
               = from_le (take 2 (drop 0x40 slot)) \<and>
            (lzss_frame_size (self_entries self' ! (length (self_entries self) + j)) \<noteq> 0 \<longrightarrow>
               int (lzss_init_pos (self_entries self' ! (length (self_entries self) + j)))
                 = (int (lzss_frame_size (self_entries self' ! (length (self_entries self) + j)))
                      - int (from_le (take 2 (drop 0x42 slot))))
                   mod int (lzss_frame_size (self_entries self' ! (length (self_entries self) + j)))) \<and>
            entry_size (self_entries self' ! (length (self_entries self) + j))
               = from_le (take 4 (drop 0x4C slot)) \<and>
            unpacked_size (self_entries self' ! (length (self_entries self) + j))
               = from_le (take 4 (drop 0x50 slot)) \<and>
            is_packed (self_entries self' ! (length (self_entries self) + j))
               = (unpacked_size (self_entries self' ! (length (self_entries self) + j))
                    \<noteq> entry_size (self_entries self' ! (length (self_entries self) + j)))"
    if j: "j < footer_count f" for j
  proof -
    from rs j s2 obtain slot where
      d: "decrypt (raw_slot f j) 0 96 (key_material f) = Inr slot" and ls: "length slot = 96"
      and pe: "parse_entry slot 0 = Inr (self_entries self' ! (length (self_entries self) + j))"
      by blast
    define e where "e = self_entries self' ! (length (self_entries self) + j)"
    from pe parse_entry_ok [OF ls] have
      "e = \<lparr>entry_name = takeWhile (\<lambda>b. b \<noteq> 0) (take 0x40 slot),
          entry_offset = from_le (take 4 (drop 0x54 slot)),
          entry_size = from_le (take 4 (drop 0x4C slot)),
          unpacked_size = from_le (take 4 (drop 0x50 slot)),
          lzss_frame_size = from_le (take 2 (drop 0x40 slot)),
          lzss_init_pos =
            (if from_le (take 2 (drop 0x40 slot)) \<noteq> 0
             then nat ((int (from_le (take 2 (drop 0x40 slot))) - int (from_le (take 2 (drop 0x42 slot))))
                        mod int (from_le (take 2 (drop 0x40 slot))))
             else from_le (take 2 (drop 0x42 slot))),
          sub_type = from_le (take 4 (drop 0x48 slot)),
          is_packed = (from_le (take 4 (drop 0x50 slot)) \<noteq> from_le (take 4 (drop 0x4C slot)))\<rparr>"
      by (simp add: e_def)
    then have "lzss_frame_size e = from_le (take 2 (drop 0x40 slot))"
      and "lzss_frame_size e \<noteq> 0 \<longrightarrow>
               int (lzss_init_pos e)
                 = (int (lzss_frame_size e) - int (from_le (take 2 (drop 0x42 slot))))
                   mod int (lzss_frame_size e)"
      and "entry_size e = from_le (take 4 (drop 0x4C slot))"
      and "unpacked_size e = from_le (take 4 (drop 0x50 slot))"
      and "is_packed e = (unpacked_size e \<noteq> entry_size e)"
      by simp_all
    with d show ?thesis unfolding e_def by auto
  qed
  with f rl s2 show ?thesis by blast
qed

theorem entry_invariants_witness:
  "EmeArchive_open EmeArchive_init (Some example_container)
     = (True, snd (EmeArchive_open EmeArchive_init (Some example_container)))
   \<and> length (self_entries (snd (EmeArchive_open EmeArchive_init (Some example_container)))) = 1
   \<and> decrypt (raw_slot example_container 0) 0 0x60 (key_material example_container) = Inr example_slot
   \<and> lzss_frame_size (self_entries (snd (EmeArchive_open EmeArchive_init (Some example_container))) ! 0)
        = 0x1000
   \<and> lzss_init_pos (self_entries (snd (EmeArchive_open EmeArchive_init (Some example_container))) ! 0)
        = 0xFEE
   \<and> entry_size (self_entries (snd (EmeArchive_open EmeArchive_init (Some example_container))) ! 0) = 5
   \<and> unpacked_size (self_entries (snd (EmeArchive_open EmeArchive_init (Some example_container))) ! 0) = 9
   \<and> is_packed (self_entries (snd (EmeArchive_open EmeArchive_init (Some example_container))) ! 0)"
proof -
  define self' where "self' = snd (EmeArchive_open EmeArchive_init (Some example_container))"
  have "fst (EmeArchive_open EmeArchive_init (Some example_container))"
    using example_well_formed by (simp only: open_well_formed)
  then have h: "EmeArchive_open EmeArchive_init (Some example_container) = (True, self')"
    by (simp add: self'_def prod_eq_iff)
  have e0: "self_entries EmeArchive_init = []" by (simp add: EmeArchive_init_def)
  from entry_invariants [OF h] obtain f where f: "Some example_container = Some f"
    and len: "length (self_entries self') = length (self_entries EmeArchive_init) + footer_count f"
    and inv: "\<forall>j < footer_count f.
          \<exists>slot. decrypt (raw_slot f j) 0 0x60 (key_material f) = Inr slot \<and>
            lzss_frame_size (self_entries self' ! (length (self_entries EmeArchive_init) + j))
               = from_le (take 2 (drop 0x40 slot)) \<and>
            (lzss_frame_size (self_entries self' ! (length (self_entries EmeArchive_init) + j)) \<noteq> 0 \<longrightarrow>
               int (lzss_init_pos (self_entries self' ! (length (self_entries EmeArchive_init) + j)))
                 = (int (lzss_frame_size (self_entries self' ! (length (self_entries EmeArchive_init) + j)))
                      - int (from_le (take 2 (drop 0x42 slot))))
                   mod int (lzss_frame_size (self_entries self' ! (length (self_entries EmeArchive_init) + j)))) \<and>
            entry_size (self_entries self' ! (length (self_entries EmeArchive_init) + j))
               = from_le (take 4 (drop 0x4C slot)) \<and>
            unpacked_size (self_entries self' ! (length (self_entries EmeArchive_init) + j))
               = from_le (take 4 (drop 0x50 slot)) \<and>
            is_packed (self_entries self' ! (length (self_entries EmeArchive_init) + j))
               = (unpacked_size (self_entries self' ! (length (self_entries EmeArchive_init) + j))
                    \<noteq> entry_size (self_entries self' ! (length (self_entries EmeArchive_init) + j)))"
    by blast
  from f have f': "f = example_container" by simp
  have d: "decrypt (raw_slot example_container 0) 0 0x60 (key_material example_container) = Inr example_slot"
    unfolding example_raw_slot example_key
    by (rule decrypt_zero_key) (simp add: length_example_slot)
  have "0 < footer_count f" by (simp add: f' example_footer)
  with inv obtain slot where s: "decrypt (raw_slot f 0) 0 0x60 (key_material f) = Inr slot"
    and fs: "lzss_frame_size (self_entries self' ! 0) = from_le (take 2 (drop 0x40 slot))"
    and ip: "lzss_frame_size (self_entries self' ! 0) \<noteq> 0 \<longrightarrow>
               int (lzss_init_pos (self_entries self' ! 0))
                 = (int (lzss_frame_size (self_entries self' ! 0))
                      - int (from_le (take 2 (drop 0x42 slot))))
                   mod int (lzss_frame_size (self_entries self' ! 0))"
    and sz: "entry_size (self_entries self' ! 0) = from_le (take 4 (drop 0x4C slot))"
    and us: "unpacked_size (self_entries self' ! 0) = from_le (take 4 (drop 0x50 slot))"
    and pk: "is_packed (self_entries self' ! 0)
               = (unpacked_size (self_entries self' ! 0) \<noteq> entry_size (self_entries self' ! 0))"
    unfolding e0 by fastforce
  from s d have slot: "slot = example_slot" by (simp add: f')
  have 1: "length (self_entries self') = 1" using len by (simp add: e0 f' example_footer)
  have 2: "lzss_frame_size (self_entries self' ! 0) = 0x1000"
    using fs by (simp only: slot example_fields)
  have "int (lzss_init_pos (self_entries self' ! 0)) = (int 0x1000 - int 0x12) mod int 0x1000"
    using ip 2 by (simp only: slot example_fields)
  then have 3: "lzss_init_pos (self_entries self' ! 0) = 0xFEE" by simp
  have 4: "entry_size (self_entries self' ! 0) = 5" using sz by (simp only: slot example_fields)
  have 5: "unpacked_size (self_entries self' ! 0) = 9" using us by (simp only: slot example_fields)
  have 6: "is_packed (self_entries self' ! 0)" using pk 4 5 by simp
  from h d 1 2 3 4 5 6 show ?thesis unfolding self'_def by (intro conjI)
qed

section \<open>Opcode 1 applied twice\<close>

text \<open>
  Claim C10. For every region whose length is a multiple of 4 and every 32-bit stage key,
  the opcode-1 stage (XOR of every 32-bit little-endian word with the stage key) succeeds,
  and applying it again with the same key to its result gives back the original bytes.
\<close>

theorem opcode1_involution:
  assumes "length region mod 4 = 0" and "key < 2 ^ 32"
  shows "\<exists>r. decrypt_stage 1 key region = Inr r \<and> decrypt_stage 1 key r = Inr region"
proof -
  from assms(1) obtain k where k: "length region = 4 * k" by (auto elim: dvdE simp: mod_eq_0_iff_dvd)
  have 1: "decrypt_stage 1 key region = Inr (xor_words key region)"
    using k assms(2) by (rule stage_xor_region)
  have "length (xor_words key region) = 4 * k"
    using k by (rule length_xor_words)
  then have "decrypt_stage 1 key (xor_words key region) = Inr (xor_words key (xor_words key region))"
    using assms(2) by (rule stage_xor_region)
  then have "decrypt_stage 1 key (xor_words key region) = Inr region"
    using xor_words_twice [OF k assms(2)] by simp
  with 1 show ?thesis by blast
qed

theorem opcode1_involution_witness:
  "length [1, 2, 3, 4 :: byte] mod 4 = 0 \<and> (5 :: nat) < 2 ^ 32 \<and>
   (\<exists>r. decrypt_stage 1 5 [1, 2, 3, 4] = Inr r \<and> decrypt_stage 1 5 r = Inr [1, 2, 3, 4])"
  using opcode1_involution [of "[1, 2, 3, 4]" 5] by simp

end
